theory Spec2Isabelle
  imports Main
begin

section \<open>Python strings, integers and dictionaries\<close>

text \<open>
  A Python \<open>str\<close> is modelled as a \<open>string\<close>, one \<open>char\<close> per code point, for code
  points below 256; a \<open>bytes\<close> value is a \<open>string\<close> too, one \<open>char\<close> per byte.
\<close>

datatype py_error = ValueError | KeyError | IndexError | LookupError | AttributeError | TypeError
  | OSError | IMAP4_error | RuntimeError string | SMTPException

definition newline :: char where
  "newline = CHR 0x0A"

text \<open>\<open>str.isspace\<close> for one code point below 256.\<close>

definition is_space :: "char \<Rightarrow> bool" where
  "is_space c = (let n = (of_char c :: nat) in
     (9 \<le> n \<and> n \<le> 13) \<or> (28 \<le> n \<and> n \<le> 32) \<or> n = 133 \<or> n = 160)"

text \<open>\<open>s.strip()\<close>.\<close>

definition strip :: "string \<Rightarrow> string" where
  "strip s = rev (dropWhile is_space (rev (dropWhile is_space s)))"

text \<open>\<open>s.startswith(p)\<close> and \<open>s.endswith(p)\<close>.\<close>

definition startswith :: "string \<Rightarrow> string \<Rightarrow> bool" where
  "startswith s p = (take (length p) s = p)"

definition endswith :: "string \<Rightarrow> string \<Rightarrow> bool" where
  "endswith s p = (length p \<le> length s \<and> drop (length s - length p) s = p)"

text \<open>
  Cutting a text at every character that satisfies \<open>P\<close>: always at least one piece.
  \<open>s.split(sep)\<close> for a separator of one character cuts at that character.
\<close>

fun split_at :: "(char \<Rightarrow> bool) \<Rightarrow> string \<Rightarrow> string list" where
  "split_at P [] = [[]]"
| "split_at P (c # cs) =
     (if P c then [] # split_at P cs
      else (case split_at P cs of
              [] \<Rightarrow> [[c]]
            | p # ps \<Rightarrow> (c # p) # ps))"

definition py_split :: "char \<Rightarrow> string \<Rightarrow> string list" where
  "py_split sep s = split_at (\<lambda>c. c = sep) s"

text \<open>\<open>b.split()\<close> for \<open>bytes\<close>: the runs between ASCII whitespace.\<close>

definition is_ascii_space :: "char \<Rightarrow> bool" where
  "is_ascii_space c = (let n = (of_char c :: nat) in (9 \<le> n \<and> n \<le> 13) \<or> n = 32)"

definition split_whitespace :: "string \<Rightarrow> string list" where
  "split_whitespace s = filter (\<lambda>p. p \<noteq> []) (split_at is_ascii_space s)"

text \<open>\<open>sep.join(pieces)\<close>.\<close>

fun py_join :: "string \<Rightarrow> string list \<Rightarrow> string" where
  "py_join sep [] = []"
| "py_join sep [p] = p"
| "py_join sep (p # ps) = p @ sep @ py_join sep ps"

text \<open>
  \<open>s.split(sep, 1)\<close> where \<open>sep\<close> occurs in \<open>s\<close>: the text before the first separator and
  the text after it.
\<close>

definition split_once :: "char \<Rightarrow> string \<Rightarrow> string \<times> string" where
  "split_once sep s = (takeWhile (\<lambda>c. c \<noteq> sep) s, tl (dropWhile (\<lambda>c. c \<noteq> sep) s))"

text \<open>
  Iterating over a text file: the lines of the content, each with its terminating
  newline (the last line has none when the content does not end with one).
\<close>

fun py_lines :: "string \<Rightarrow> string list" where
  "py_lines [] = []"
| "py_lines (c # cs) =
     (if c = newline then [c] # py_lines cs
      else (case py_lines cs of
              [] \<Rightarrow> [[c]]
            | l # ls \<Rightarrow> (c # l) # ls))"

subsection \<open>Integers\<close>

definition is_digit :: "char \<Rightarrow> bool" where
  "is_digit c = (48 \<le> (of_char c :: nat) \<and> (of_char c :: nat) \<le> 57)"

definition digit_val :: "char \<Rightarrow> nat" where
  "digit_val c = of_char c - 48"

definition digit_char :: "nat \<Rightarrow> char" where
  "digit_char d = char_of (48 + d)"

text \<open>
  The digits of a decimal literal, where single underscores may stand between digits:
  \<open>None\<close> when the text is not of that shape. The flag says whether the previous
  character was a digit.
\<close>

fun literal_digits :: "bool \<Rightarrow> string \<Rightarrow> string option" where
  "literal_digits prev [] = (if prev then Some [] else None)"
| "literal_digits prev (c # cs) =
     (if is_digit c then map_option ((#) c) (literal_digits True cs)
      else if c = CHR ''_'' \<and> prev then literal_digits False cs
      else None)"

definition digits_val :: "string \<Rightarrow> nat" where
  "digits_val ds = foldl (\<lambda>a c. 10 * a + digit_val c) 0 ds"

text \<open>
  \<open>int(s)\<close> for a \<open>str\<close>: surrounding whitespace is dropped, then an optional sign and a
  decimal literal are read; anything else raises \<open>ValueError\<close>. The whitespace \<open>int\<close>
  drops is that of \<open>str.isspace\<close> without the separators U+001C to U+001F. CPython's
  limit on the number of digits of a literal (\<open>sys.set_int_max_str_digits\<close>, 4300 unless
  configured) is not modelled.
\<close>

definition is_int_space :: "char \<Rightarrow> bool" where
  "is_int_space c = (let n = (of_char c :: nat) in
     (9 \<le> n \<and> n \<le> 13) \<or> n = 32 \<or> n = 133 \<or> n = 160)"

definition int_strip :: "string \<Rightarrow> string" where
  "int_strip s = rev (dropWhile is_int_space (rev (dropWhile is_int_space s)))"

definition unsigned_int :: "string \<Rightarrow> py_error + int" where
  "unsigned_int s =
     (case literal_digits False s of
        None \<Rightarrow> Inl ValueError
      | Some ds \<Rightarrow> Inr (int (digits_val ds)))"

definition py_int :: "string \<Rightarrow> py_error + int" where
  "py_int s =
     (case int_strip s of
        [] \<Rightarrow> Inl ValueError
      | c # cs \<Rightarrow>
          if c = CHR ''-'' then map_sum id uminus (unsigned_int cs)
          else if c = CHR ''+'' then unsigned_int cs
          else unsigned_int (c # cs))"

text \<open>\<open>str(n)\<close> for an \<open>int\<close>.\<close>

fun str_nat :: "nat \<Rightarrow> string" where
  "str_nat n = (if n < 10 then [digit_char n] else str_nat (n div 10) @ [digit_char (n mod 10)])"

declare str_nat.simps [simp del]

definition py_str :: "int \<Rightarrow> string" where
  "py_str n = (if n < 0 then CHR ''-'' # str_nat (nat (- n)) else str_nat (nat n))"

subsection \<open>Dictionaries\<close>

text \<open>
  A Python \<open>dict\<close> keeps its keys in insertion order, and \<open>save_all_accounts\<close> writes
  the accounts in that order, so a dictionary is an association list with distinct keys:
  assigning to a key that is present replaces the value in place, assigning to a new key
  appends the entry.
\<close>

type_synonym ('k, 'v) dict = "('k \<times> 'v) list"

fun dict_set :: "('k, 'v) dict \<Rightarrow> 'k \<Rightarrow> 'v \<Rightarrow> ('k, 'v) dict" where
  "dict_set [] k v = [(k, v)]"
| "dict_set ((k', v') # d) k v =
     (if k' = k then (k', v) # d else (k', v') # dict_set d k v)"

definition dict_get :: "('k, 'v) dict \<Rightarrow> 'k \<Rightarrow> 'v \<Rightarrow> 'v" where
  "dict_get d k dflt = (case map_of d k of None \<Rightarrow> dflt | Some v \<Rightarrow> v)"

definition dict_has :: "('k, 'v) dict \<Rightarrow> 'k \<Rightarrow> bool" where
  "dict_has d k = (map_of d k \<noteq> None)"

text \<open>\<open>del d[k]\<close>: \<open>KeyError\<close> when the key is absent.\<close>

definition dict_remove :: "('k, 'v) dict \<Rightarrow> 'k \<Rightarrow> ('k, 'v) dict" where
  "dict_remove d k = filter (\<lambda>kv. fst kv \<noteq> k) d"

definition dict_del :: "('k, 'v) dict \<Rightarrow> 'k \<Rightarrow> py_error + ('k, 'v) dict" where
  "dict_del d k = (if dict_has d k then Inr (dict_remove d k) else Inl KeyError)"

section \<open>Account configuration and the account store\<close>

record AccountConfig =
  name :: string
  email :: string
  password :: string
  imap_server :: string
  imap_port :: int
  smtp_server :: string
  smtp_port :: int

definition to_dict :: "AccountConfig \<Rightarrow> (string, string) dict" where
  "to_dict acc =
     [(''name'', name acc),
      (''email'', email acc),
      (''password'', password acc),
      (''imap_server'', imap_server acc),
      (''imap_port'', py_str (imap_port acc)),
      (''smtp_server'', smtp_server acc),
      (''smtp_port'', py_str (smtp_port acc))]"

text \<open>
  \<open>int(d.get(key, default) or fallback)\<close>: an absent key gives the default text, an empty
  value gives the integer fallback, any other value is parsed.
\<close>

definition port_of :: "(string, string) dict \<Rightarrow> string \<Rightarrow> string \<Rightarrow> int \<Rightarrow> py_error + int" where
  "port_of d k dflt fallback =
     (let v = dict_get d k dflt in if v = [] then Inr fallback else py_int v)"

definition from_dict :: "(string, string) dict \<Rightarrow> py_error + AccountConfig" where
  "from_dict d =
     (case port_of d ''imap_port'' ''993'' 993 of
        Inl e \<Rightarrow> Inl e
      | Inr ip \<Rightarrow>
          (case port_of d ''smtp_port'' ''587'' 587 of
             Inl e \<Rightarrow> Inl e
           | Inr sp \<Rightarrow>
               Inr \<lparr> name = dict_get d ''name'' [],
                     email = dict_get d ''email'' [],
                     password = dict_get d ''password'' [],
                     imap_server = dict_get d ''imap_server'' [],
                     imap_port = ip,
                     smtp_server = dict_get d ''smtp_server'' [],
                     smtp_port = sp \<rparr>))"

text \<open>
  The loop of \<open>load_all_accounts\<close>: the state is the accounts read so far, the
  key/value pairs of the block being read, and that block's name (\<open>None\<close> before the
  first section header).
\<close>

type_synonym load_state =
  "(string, AccountConfig) dict \<times> (string, string) dict \<times> string option"

definition is_header :: "string \<Rightarrow> bool" where
  "is_header line = (startswith line ''[account '' \<and> endswith line '']'')"

definition header_name :: "string \<Rightarrow> string" where
  "header_name line = butlast (drop (length ''[account '') line)"

text \<open>
  \<open>if current_name and current: accounts[current_name] = AccountConfig.from_dict(current)\<close>
\<close>

definition commit :: "load_state \<Rightarrow> py_error + (string, AccountConfig) dict" where
  "commit st =
     (case st of (accounts, current, current_name) \<Rightarrow>
        (case current_name of
           None \<Rightarrow> Inr accounts
         | Some n \<Rightarrow>
             if n \<noteq> [] \<and> current \<noteq> [] then
               (case from_dict current of
                  Inl e \<Rightarrow> Inl e
                | Inr acc \<Rightarrow> Inr (dict_set accounts n acc))
             else Inr accounts))"

definition load_line :: "load_state \<Rightarrow> string \<Rightarrow> py_error + load_state" where
  "load_line st raw =
     (case st of (accounts, current, current_name) \<Rightarrow>
        (let line = strip raw in
         if line = [] then Inr st
         else if is_header line then
           (case commit st of
              Inl e \<Rightarrow> Inl e
            | Inr accounts' \<Rightarrow>
                Inr (accounts', [(''name'', header_name line)], Some (header_name line)))
         else if CHR ''='' \<in> set line then
           (case split_once CHR ''='' line of
              (key, val) \<Rightarrow> Inr (accounts, dict_set current (strip key) (strip val), current_name))
         else Inr st))"

fun load_lines :: "load_state \<Rightarrow> string list \<Rightarrow> py_error + load_state" where
  "load_lines st [] = Inr st"
| "load_lines st (l # ls) =
     (case load_line st l of Inl e \<Rightarrow> Inl e | Inr st' \<Rightarrow> load_lines st' ls)"

text \<open>
  The store file is \<open>None\<close> when it does not exist, and its text otherwise (as read in
  text mode: every line end is one newline character).
\<close>

definition load_all_accounts :: "string option \<Rightarrow> py_error + (string, AccountConfig) dict" where
  "load_all_accounts file =
     (case file of
        None \<Rightarrow> Inr []
      | Some content \<Rightarrow>
          (case load_lines ([], [], None) (py_lines content) of
             Inl e \<Rightarrow> Inl e
           | Inr st \<Rightarrow> commit st))"

text \<open>The two line formats of \<open>save_all_accounts\<close>: \<open>f"[account {acc.name}]\\n"\<close> and \<open>f"{key}={val}\\n"\<close>.\<close>

definition header_text :: "string \<Rightarrow> string" where
  "header_text n = ''[account '' @ n @ '']'' @ [newline]"

definition kv_text :: "string \<Rightarrow> string \<Rightarrow> string" where
  "kv_text key val = key @ ''='' @ val @ [newline]"

definition block_lines :: "AccountConfig \<Rightarrow> string list" where
  "block_lines acc =
     header_text (name acc)
     # map (\<lambda>kv. kv_text (fst kv) (snd kv))
         (filter (\<lambda>kv. fst kv \<noteq> ''name'') (to_dict acc))
     @ [[newline]]"

definition save_all_accounts :: "(string, AccountConfig) dict \<Rightarrow> string" where
  "save_all_accounts accounts = concat (concat (map (\<lambda>kv. block_lines (snd kv)) accounts))"

section \<open>Notions used to state the properties of the store\<close>

text \<open>
  The key and the value a line of the file contributes to the block being read: the
  line is not blank, is no section header and has an equals sign.
\<close>

definition kv_of :: "string \<Rightarrow> (string \<times> string) option" where
  "kv_of raw =
     (let line = strip raw in
      if line \<noteq> [] \<and> \<not> is_header line \<and> CHR ''='' \<in> set line then
        Some (strip (fst (split_once CHR ''='' line)), strip (snd (split_once CHR ''='' line)))
      else None)"

text \<open>What such a line does to the pairs of the block.\<close>

definition kv_line :: "(string, string) dict \<Rightarrow> string \<Rightarrow> (string, string) dict" where
  "kv_line cur raw = (case kv_of raw of None \<Rightarrow> cur | Some (k, v) \<Rightarrow> dict_set cur k v)"

text \<open>
  \<open>h\<close> and \<open>body\<close> are a block of the file, and the last one with its name: \<open>h\<close> is a
  section header with a name, \<open>body\<close> is every line up to the next header or the end,
  and no later header has the name.
\<close>

definition last_block :: "string list \<Rightarrow> string \<Rightarrow> string list \<Rightarrow> bool" where
  "last_block lines h body =
     (\<exists>pre rest. lines = pre @ h # body @ rest
        \<and> is_header (strip h) \<and> header_name (strip h) \<noteq> []
        \<and> (\<forall>l\<in>set body. \<not> is_header (strip l))
        \<and> (rest \<noteq> [] \<longrightarrow> is_header (strip (hd rest)))
        \<and> (\<forall>l\<in>set rest. is_header (strip l) \<longrightarrow> header_name (strip l) \<noteq> header_name (strip h)))"

text \<open>A text that \<open>int\<close> accepts.\<close>

definition is_int_literal :: "string \<Rightarrow> bool" where
  "is_int_literal v = (case py_int v of Inl e \<Rightarrow> False | Inr n \<Rightarrow> True)"

definition is_port_key :: "string \<Rightarrow> bool" where
  "is_port_key k = (k = ''imap_port'' \<or> k = ''smtp_port'')"

text \<open>A line that does not give a port a value \<open>int\<close> would refuse.\<close>

definition port_line_ok :: "string \<Rightarrow> bool" where
  "port_line_ok raw =
     (case kv_of raw of
        None \<Rightarrow> True
      | Some (k, v) \<Rightarrow> \<not> is_port_key k \<or> v = [] \<or> is_int_literal v)"

text \<open>No line of the block gives the key \<open>k\<close> a value other than the empty one.\<close>

definition port_unset :: "string \<Rightarrow> string list \<Rightarrow> bool" where
  "port_unset k body =
     list_all (\<lambda>raw. case kv_of raw of None \<Rightarrow> True | Some (k', v) \<Rightarrow> k' \<noteq> k \<or> v = []) body"

text \<open>
  A line that does not set the key \<open>name\<close>: in the file format the name of an account
  stands in its section header only.
\<close>

definition no_name_key :: "string \<Rightarrow> bool" where
  "no_name_key raw = (case kv_of raw of None \<Rightarrow> True | Some (k, v) \<Rightarrow> k \<noteq> ''name'')"

subsection \<open>Invariants of the proofs\<close>

text \<open>
  Lines as \<open>py_lines\<close> gives them: a newline can only be the last character of a line,
  and only the last line can lack it.
\<close>

fun proper_lines :: "string list \<Rightarrow> bool" where
  "proper_lines [] = True"
| "proper_lines [l] = (l \<noteq> [] \<and> newline \<notin> set (butlast l))"
| "proper_lines (l # ls) = (l \<noteq> [] \<and> newline \<notin> set (butlast l) \<and> last l = newline \<and> proper_lines ls)"

text \<open>A line that ends with its only newline.\<close>

definition terminated :: "string \<Rightarrow> bool" where
  "terminated l = (l \<noteq> [] \<and> newline \<notin> set (butlast l) \<and> last l = newline)"

text \<open>The pairs of a block whose port values \<open>int\<close> accepts.\<close>

definition ports_ok :: "(string, string) dict \<Rightarrow> bool" where
  "ports_ok d = (\<forall>k v. is_port_key k \<longrightarrow> map_of d k = Some v \<longrightarrow> v = [] \<or> is_int_literal v)"

text \<open>
  A value as \<open>load_all_accounts\<close> stores it, and an account made of such values under
  its own name: these are written and read back unchanged.
\<close>

definition clean :: "string \<Rightarrow> bool" where
  "clean v = (strip v = v \<and> newline \<notin> set v)"

definition good_account :: "string \<Rightarrow> AccountConfig \<Rightarrow> bool" where
  "good_account k a =
     (name a = k \<and> k \<noteq> [] \<and> newline \<notin> set k \<and> clean (email a) \<and> clean (password a)
      \<and> clean (imap_server a) \<and> clean (smtp_server a))"

definition good_accounts :: "(string, AccountConfig) dict \<Rightarrow> bool" where
  "good_accounts accounts =
     ((\<forall>kv\<in>set accounts. good_account (fst kv) (snd kv)) \<and> distinct (map fst accounts))"

text \<open>The lines \<open>save_all_accounts\<close> writes.\<close>

definition blocks :: "(string, AccountConfig) dict \<Rightarrow> string list" where
  "blocks accounts = concat (map (\<lambda>kv. block_lines (snd kv)) accounts)"

text \<open>The invariant of the loop of \<open>load_all_accounts\<close> on a file without \<open>name\<close> keys.\<close>

definition good_current :: "(string, string) dict \<Rightarrow> string option \<Rightarrow> bool" where
  "good_current cur cn =
     ((\<forall>k v. map_of cur k = Some v \<longrightarrow> k \<noteq> ''name'' \<longrightarrow> clean v)
      \<and> (\<forall>n. cn = Some n \<longrightarrow> map_of cur ''name'' = Some n \<and> newline \<notin> set n))"

definition good_line :: "string \<Rightarrow> bool" where
  "good_line raw = (newline \<notin> set (strip raw) \<and> no_name_key raw)"

section \<open>Message decoding\<close>

text \<open>
  A parsed message, as \<open>email.message_from_bytes\<close> gives it: its header fields, the
  content type and the charset of its \<open>Content-Type\<close> header (\<open>get_content_type()\<close>,
  \<open>get_content_charset()\<close>), and its payload, which is a list of messages when
  \<open>is_multipart()\<close> holds and otherwise the bytes that \<open>get_payload(decode=True)\<close>
  returns (\<open>None\<close> when there are none).
\<close>

datatype email_msg =
    Leaf "(string \<times> string) list" string "string option" "string option"
  | Multipart "(string \<times> string) list" string "string option" "email_msg list"

fun msg_headers :: "email_msg \<Rightarrow> (string \<times> string) list" where
  "msg_headers (Leaf hs ct cs p) = hs"
| "msg_headers (Multipart hs ct cs ps) = hs"

fun get_content_type :: "email_msg \<Rightarrow> string" where
  "get_content_type (Leaf hs ct cs p) = ct"
| "get_content_type (Multipart hs ct cs ps) = ct"

fun get_content_charset :: "email_msg \<Rightarrow> string option" where
  "get_content_charset (Leaf hs ct cs p) = cs"
| "get_content_charset (Multipart hs ct cs ps) = cs"

fun is_multipart :: "email_msg \<Rightarrow> bool" where
  "is_multipart (Leaf hs ct cs p) = False"
| "is_multipart (Multipart hs ct cs ps) = True"

text \<open>\<open>get_payload(decode=True)\<close>: \<open>None\<close> for a multipart message.\<close>

fun get_payload_decoded :: "email_msg \<Rightarrow> string option" where
  "get_payload_decoded (Leaf hs ct cs p) = p"
| "get_payload_decoded (Multipart hs ct cs ps) = None"

text \<open>\<open>msg.walk()\<close>: the message itself, then its parts, depth first.\<close>

fun walk :: "email_msg \<Rightarrow> email_msg list" where
  "walk (Leaf hs ct cs p) = [Leaf hs ct cs p]"
| "walk (Multipart hs ct cs ps) = Multipart hs ct cs ps # concat (map walk ps)"

text \<open>
  The standard library is a parameter of the model: the codec registry
  (\<open>bytes.decode(charset, errors="replace")\<close>, \<open>None\<close> when the charset is unknown and
  \<open>LookupError\<close> is raised), \<open>email.header.decode_header\<close> (\<open>None\<close> when it raises) and
  \<open>email.message_from_bytes\<close>.
\<close>

datatype fragment = Text string | Raw string "string option"

record pylib =
  codec :: "string \<Rightarrow> string \<Rightarrow> string option"
  decode_header :: "string \<Rightarrow> fragment list option"
  message_from_bytes :: "string \<Rightarrow> email_msg"

definition placeholder :: string where
  "placeholder = ''(Could not decode message body.)''"

text \<open>
  \<open>b.decode(charset, errors="replace")\<close>: empty bytes decode to the empty text before
  the charset is looked up.
\<close>

definition bytes_decode :: "pylib \<Rightarrow> string \<Rightarrow> string \<Rightarrow> string option" where
  "bytes_decode lib charset b = (if b = [] then Some [] else codec lib charset b)"

text \<open>
  \<open>payload = part.get_payload(decode=True) or b""\<close>,
  \<open>charset = part.get_content_charset() or "utf-8"\<close>,
  \<open>return payload.decode(charset, errors="replace")\<close>; the result is \<open>None\<close> when
  \<open>decode\<close> raises.
\<close>

definition decode_part :: "pylib \<Rightarrow> email_msg \<Rightarrow> string option" where
  "decode_part lib part =
     (let payload = (case get_payload_decoded part of None \<Rightarrow> [] | Some b \<Rightarrow> b);
          charset = (case get_content_charset part of
                       None \<Rightarrow> ''utf-8''
                     | Some cs \<Rightarrow> if cs = [] then ''utf-8'' else cs)
      in bytes_decode lib charset payload)"

text \<open>
  \<open>_extract_plain_text_body\<close>. Both loops return in the first iteration they reach a
  \<open>return\<close> in; the second loop has no condition, so it returns for the first element of
  \<open>walk\<close>. An exception anywhere gives the placeholder. The result is \<open>None\<close> where the
  Python function would fall off its end.
\<close>

definition extract_plain_text_body :: "pylib \<Rightarrow> email_msg \<Rightarrow> string option" where
  "extract_plain_text_body lib msg =
     (let decoded = (\<lambda>part. case decode_part lib part of
                               None \<Rightarrow> Some placeholder
                             | Some t \<Rightarrow> Some t)
      in if is_multipart msg then
           (case find (\<lambda>part. get_content_type part = ''text/plain'') (walk msg) of
              Some part \<Rightarrow> decoded part
            | None \<Rightarrow>
                (case walk msg of
                   [] \<Rightarrow> None
                 | part # rest \<Rightarrow> decoded part))
         else decoded msg)"

text \<open>
  \<open>_decode_mime_header\<close>: a fragment of bytes is decoded with its charset, or with UTF-8
  when that raises; when anything else raises, the raw value is returned.
\<close>

definition decode_fragment :: "pylib \<Rightarrow> fragment \<Rightarrow> string option" where
  "decode_fragment lib f =
     (case f of
        Text t \<Rightarrow> Some t
      | Raw b enc \<Rightarrow>
          (case bytes_decode lib (case enc of None \<Rightarrow> ''utf-8'' | Some e \<Rightarrow> if e = [] then ''utf-8'' else e) b of
             Some t \<Rightarrow> Some t
           | None \<Rightarrow> bytes_decode lib ''utf-8'' b))"

fun decode_fragments :: "pylib \<Rightarrow> fragment list \<Rightarrow> string option" where
  "decode_fragments lib [] = Some []"
| "decode_fragments lib (f # fs) =
     (case decode_fragment lib f of
        None \<Rightarrow> None
      | Some t \<Rightarrow> map_option ((@) t) (decode_fragments lib fs))"

definition decode_mime_header :: "pylib \<Rightarrow> string option \<Rightarrow> string" where
  "decode_mime_header lib v =
     (case v of
        None \<Rightarrow> []
      | Some val \<Rightarrow>
          if val = [] then []
          else (case decode_header lib val of
                  None \<Rightarrow> val
                | Some fragments \<Rightarrow>
                    (case decode_fragments lib fragments of
                       None \<Rightarrow> val
                     | Some t \<Rightarrow> t)))"

text \<open>\<open>msg.get(field)\<close>: the first header of that name, compared without case.\<close>

definition lower_char :: "char \<Rightarrow> char" where
  "lower_char c = (let n = (of_char c :: nat) in if 65 \<le> n \<and> n \<le> 90 then char_of (n + 32) else c)"

definition msg_get :: "email_msg \<Rightarrow> string \<Rightarrow> string option" where
  "msg_get msg field =
     map_option snd
       (find (\<lambda>h. map lower_char (fst h) = map lower_char field) (msg_headers msg))"

section \<open>The application frame\<close>

text \<open>
  \<open>AccountConfig\<close> objects are mutable and shared: the dictionary \<open>self.accounts\<close> and
  \<open>self.active_account\<close> hold references to the same objects, the settings dialog writes
  into the object it is given, and \<open>on_edit_active_account\<close> compares references with
  \<open>is not\<close>. So the frame has a store of objects by address, and the dictionary and the
  active account hold addresses. \<open>accounts_file\<close> is the content of \<open>accounts.txt\<close>. The
  widgets of the window are not modelled; a message box is the outcome an operation
  returns.
\<close>

record message =
  msg_id :: string
  msg_subject :: string
  msg_from :: string
  msg_to :: string
  msg_body :: "string option"

record frame =
  objects :: "nat \<Rightarrow> AccountConfig"
  accounts :: "(string, nat) dict"
  active_account :: "nat option"
  messages :: "message list"
  accounts_file :: "string option"

text \<open>\<open>save_all_accounts(self.accounts)\<close>: the dictionary with its objects read from the store.\<close>

definition account_values :: "frame \<Rightarrow> (string, AccountConfig) dict" where
  "account_values st = map (\<lambda>kv. (fst kv, objects st (snd kv))) (accounts st)"

definition save_frame :: "frame \<Rightarrow> frame" where
  "save_frame st = st\<lparr>accounts_file := Some (save_all_accounts (account_values st))\<rparr>"

subsection \<open>Start of the application\<close>

text \<open>\<open>AccountConfig()\<close> with the defaults of its constructor.\<close>

definition new_account :: AccountConfig where
  "new_account =
     \<lparr> name = [], email = [], password = [], imap_server = [], imap_port = 993,
       smtp_server = [], smtp_port = 587 \<rparr>"

text \<open>
  \<open>sorted(self.accounts.keys())[0]\<close>: the least key, where Python compares texts code
  point by code point and a proper prefix is smaller.
\<close>

fun str_less :: "string \<Rightarrow> string \<Rightarrow> bool" where
  "str_less [] [] = False"
| "str_less [] (d # ds) = True"
| "str_less (c # cs) [] = False"
| "str_less (c # cs) (d # ds) =
     ((of_char c :: nat) < of_char d \<or> (c = d \<and> str_less cs ds))"

fun least :: "string \<Rightarrow> string list \<Rightarrow> string" where
  "least m [] = m"
| "least m (k # ks) = least (if str_less k m then k else m) ks"

text \<open>
  \<open>EmailClientFrame.__init__\<close>: the accounts of the store file become objects, here at the
  addresses 0, 1, ... in the order of the dictionary (every other address holds a fresh
  account), the account of the least name is the active one, and there are no messages.
  An exception of \<open>load_all_accounts\<close> ends the start.
\<close>

definition init_frame :: "string option \<Rightarrow> py_error + frame" where
  "init_frame store =
     (case load_all_accounts store of
        Inl e \<Rightarrow> Inl e
      | Inr loaded \<Rightarrow>
          (let dict = zip (map fst loaded) [0 ..< length loaded] in
           Inr \<lparr> objects = (\<lambda>a. case drop a loaded of [] \<Rightarrow> new_account | kv # kvs \<Rightarrow> snd kv),
                 accounts = dict,
                 active_account = (case map fst loaded of
                                     [] \<Rightarrow> None
                                   | k # ks \<Rightarrow> map_of dict (least k ks)),
                 messages = [],
                 accounts_file = store \<rparr>))"

subsection \<open>The settings dialog\<close>

record dialog_fields =
  txt_name :: string
  txt_email :: string
  txt_password :: string
  txt_imap_server :: string
  txt_imap_port :: string
  txt_smtp_server :: string
  txt_smtp_port :: string

datatype dialog_error = Name_empty | Email_empty | Ports_not_integers

text \<open>The inputs as \<open>SettingsDialog.__init__\<close> fills them from the account.\<close>

definition prefill :: "AccountConfig \<Rightarrow> dialog_fields" where
  "prefill account =
     \<lparr> txt_name = name account,
       txt_email = email account,
       txt_password = password account,
       txt_imap_server = imap_server account,
       txt_imap_port = py_str (imap_port account),
       txt_smtp_server = smtp_server account,
       txt_smtp_port = py_str (smtp_port account) \<rparr>"

text \<open>
  \<open>SettingsDialog.on_save\<close>: the account as written back, or the error shown, in which
  case the account is untouched and the dialog stays open.
\<close>

definition on_save :: "dialog_fields \<Rightarrow> AccountConfig \<Rightarrow> dialog_error + AccountConfig" where
  "on_save inputs account =
     (let nm = strip (txt_name inputs) in
      if nm = [] then Inl Name_empty
      else
        (let email_addr = strip (txt_email inputs) in
         if email_addr = [] then Inl Email_empty
         else
           (case py_int (strip (txt_imap_port inputs)) of
              Inl e \<Rightarrow> Inl Ports_not_integers
            | Inr ip \<Rightarrow>
                (case py_int (strip (txt_smtp_port inputs)) of
                   Inl e \<Rightarrow> Inl Ports_not_integers
                 | Inr sp \<Rightarrow>
                     Inr (account\<lparr> name := nm,
                                   email := email_addr,
                                   password := txt_password inputs,
                                   imap_server := strip (txt_imap_server inputs),
                                   imap_port := ip,
                                   smtp_server := strip (txt_smtp_server inputs),
                                   smtp_port := sp \<rparr>)))))"

text \<open>
  \<open>dlg.ShowModal()\<close>: what the user does with the dialog, one action after the other.
  The dialog ends with \<open>ID_OK\<close> at the first \<open>Save\<close> that \<open>on_save\<close> accepts (the result is
  the account as written), and without it at \<open>Cancel\<close> or when the actions run out.
\<close>

datatype dialog_action = Press_save dialog_fields | Press_cancel

fun show_modal :: "dialog_action list \<Rightarrow> AccountConfig \<Rightarrow> AccountConfig option" where
  "show_modal [] account = None"
| "show_modal (Press_cancel # rest) account = None"
| "show_modal (Press_save inputs # rest) account =
     (case on_save inputs account of
        Inl e \<Rightarrow> show_modal rest account
      | Inr account' \<Rightarrow> Some account')"

subsection \<open>Editing and deleting accounts\<close>

datatype edit_outcome = No_active_account_to_edit | Edit_cancelled | Name_in_use | Edit_saved
  | Edit_raised py_error

text \<open>
  \<open>on_edit_active_account\<close>. The dialog has written into the active object before the
  name is checked. \<open>del self.accounts[old_name]\<close> raises \<open>KeyError\<close> when the old name is
  no key, and then nothing is saved.
\<close>

definition on_edit_active_account :: "frame \<Rightarrow> dialog_action list \<Rightarrow> frame \<times> edit_outcome" where
  "on_edit_active_account st actions =
     (case active_account st of
        None \<Rightarrow> (st, No_active_account_to_edit)
      | Some a \<Rightarrow>
          (let old_name = name (objects st a) in
           case show_modal actions (objects st a) of
             None \<Rightarrow> (st, Edit_cancelled)
           | Some account' \<Rightarrow>
               (let st1 = st\<lparr>objects := (objects st)(a := account')\<rparr>;
                    new_name = (if name account' \<noteq> [] then name account' else old_name)
                in if new_name \<noteq> old_name then
                     (if dict_has (accounts st1) new_name \<and> map_of (accounts st1) new_name \<noteq> Some a
                      then (save_frame (st1\<lparr>objects := (objects st1)(a := account'\<lparr>name := old_name\<rparr>)\<rparr>),
                            Name_in_use)
                      else (case dict_del (accounts st1) old_name of
                              Inl e \<Rightarrow> (st1, Edit_raised e)
                            | Inr d \<Rightarrow> (save_frame (st1\<lparr>accounts := dict_set d new_name a\<rparr>), Edit_saved)))
                   else (save_frame st1, Edit_saved))))"

datatype delete_outcome = No_accounts_to_delete | Delete_cancelled | Selection_unknown | Deleted

text \<open>
  \<open>on_delete_account\<close>; the choice is what the selection dialog returns, \<open>None\<close> when it
  is cancelled.
\<close>

definition on_delete_account :: "frame \<Rightarrow> string option \<Rightarrow> frame \<times> delete_outcome" where
  "on_delete_account st choice =
     (if accounts st = [] then (st, No_accounts_to_delete)
      else (case choice of
              None \<Rightarrow> (st, Delete_cancelled)
            | Some selected \<Rightarrow>
                if dict_has (accounts st) selected then
                  (let st1 = (case active_account st of
                                None \<Rightarrow> st
                              | Some a \<Rightarrow>
                                  if name (objects st a) = selected
                                  then st\<lparr>active_account := None, messages := []\<rparr>
                                  else st)
                   in (save_frame (st1\<lparr>accounts := dict_remove (accounts st1) selected\<rparr>), Deleted))
                else (st, Selection_unknown)))"

section \<open>Fetching the inbox\<close>

text \<open>
  The IMAP server, as \<open>imaplib\<close> shows it to the caller: what each call returns or
  raises. A \<open>FETCH\<close> answers by message identifier. An item of the data of a \<open>FETCH\<close> is
  \<open>None\<close>, a pair of bytes (the response line and the literal), or bytes alone.
  \<open>close()\<close> and \<open>logout()\<close> are taken to succeed.
\<close>

datatype 'a reply = Raises py_error | Returns 'a

datatype fetch_item = Item_none | Item_pair string string | Item_bytes string

record imap_server =
  imap_connect :: "py_error option"
  imap_starttls :: "py_error option"
  imap_login :: "py_error option"
  imap_select :: "string reply"
  imap_search :: "(string \<times> string option list) reply"
  imap_fetch :: "string \<Rightarrow> (string \<times> fetch_item list) reply"

datatype imap_event =
    IMAP4_SSL string int
  | IMAP4 string int
  | Imap_starttls
  | Imap_login string string
  | Imap_select string
  | Imap_search
  | Imap_fetch string
  | Imap_close
  | Imap_logout

datatype refresh_outcome = Refresh_no_active_account | Inbox_is_empty | Emails_loaded
  | IMAP_error_box py_error | Error_box py_error

text \<open>
  The two handlers of \<open>on_refresh\<close>: \<open>except imaplib.IMAP4.error\<close>, then
  \<open>except Exception\<close>.
\<close>

definition refresh_handler :: "py_error \<Rightarrow> refresh_outcome" where
  "refresh_handler e = (if e = IMAP4_error then IMAP_error_box e else Error_box e)"

text \<open>
  \<open>raw = msg_data[0][1]\<close> and \<open>email.message_from_bytes(raw)\<close>: indexing bytes gives an
  integer (or \<open>IndexError\<close>), which \<open>message_from_bytes\<close> cannot decode; \<open>None\<close> cannot be
  indexed (the guard of the loop never lets it come here).
\<close>

definition parse_item :: "pylib \<Rightarrow> fetch_item \<Rightarrow> py_error + email_msg" where
  "parse_item lib item =
     (case item of
        Item_pair line raw \<Rightarrow> Inr (message_from_bytes lib raw)
      | Item_bytes b \<Rightarrow> if length b < 2 then Inl IndexError else Inl AttributeError
      | Item_none \<Rightarrow> Inl TypeError)"

definition build_message :: "pylib \<Rightarrow> string \<Rightarrow> email_msg \<Rightarrow> message" where
  "build_message lib i msg =
     \<lparr> msg_id = i,
       msg_subject = (let s = decode_mime_header lib (msg_get msg ''Subject'')
                      in if s = [] then ''(no subject)'' else s),
       msg_from = decode_mime_header lib (msg_get msg ''From''),
       msg_to = decode_mime_header lib (msg_get msg ''To''),
       msg_body = extract_plain_text_body lib msg \<rparr>"

text \<open>
  The loop over the identifiers: the messages appended so far, the commands sent so far,
  and the exception that ended the loop, if one did.
\<close>

fun fetch_loop :: "pylib \<Rightarrow> imap_server \<Rightarrow> string list \<Rightarrow> message list \<Rightarrow> imap_event list
    \<Rightarrow> py_error option \<times> message list \<times> imap_event list" where
  "fetch_loop lib srv [] msgs evs = (None, msgs, evs)"
| "fetch_loop lib srv (i # ids) msgs evs =
     (case imap_fetch srv i of
        Raises e \<Rightarrow> (Some e, msgs, evs @ [Imap_fetch i])
      | Returns (status, msg_data) \<Rightarrow>
          (case msg_data of
             [] \<Rightarrow> fetch_loop lib srv ids msgs (evs @ [Imap_fetch i])
           | item # items \<Rightarrow>
               if status \<noteq> ''OK'' \<or> item = Item_none
               then fetch_loop lib srv ids msgs (evs @ [Imap_fetch i])
               else (case parse_item lib item of
                       Inl e \<Rightarrow> (Some e, msgs, evs @ [Imap_fetch i])
                     | Inr msg \<Rightarrow>
                         fetch_loop lib srv ids (msgs @ [build_message lib i msg])
                           (evs @ [Imap_fetch i]))))"

text \<open>\<open>ids[-20:]\<close>.\<close>

definition last_20 :: "'a list \<Rightarrow> 'a list" where
  "last_20 ids = drop (length ids - 20) ids"

text \<open>\<open>data[0].split()\<close> of the \<open>SEARCH\<close> response.\<close>

definition search_ids :: "string option list \<Rightarrow> py_error + string list" where
  "search_ids data =
     (case data of
        [] \<Rightarrow> Inl IndexError
      | None # rest \<Rightarrow> Inl AttributeError
      | Some b # rest \<Rightarrow> Inr (split_whitespace b))"

text \<open>
  \<open>on_refresh\<close> from the point where the connection stands: the new list of messages,
  the commands sent, and the outcome.
\<close>

definition refresh_session :: "pylib \<Rightarrow> imap_server \<Rightarrow> AccountConfig \<Rightarrow> message list \<Rightarrow> imap_event list
    \<Rightarrow> message list \<times> imap_event list \<times> refresh_outcome" where
  "refresh_session lib srv acc msgs evs0 =
     (let evs1 = evs0 @ [Imap_login (email acc) (password acc)] in
      case imap_login srv of
        Some e \<Rightarrow> (msgs, evs1, refresh_handler e)
      | None \<Rightarrow>
          (let evs2 = evs1 @ [Imap_select ''INBOX''] in
           case imap_select srv of
             Raises e \<Rightarrow> (msgs, evs2, refresh_handler e)
           | Returns status \<Rightarrow>
               if status \<noteq> ''OK'' then (msgs, evs2, refresh_handler (RuntimeError ''Could not open INBOX''))
               else
                 (let evs3 = evs2 @ [Imap_search] in
                  case imap_search srv of
                    Raises e \<Rightarrow> (msgs, evs3, refresh_handler e)
                  | Returns (status, data) \<Rightarrow>
                      if status \<noteq> ''OK'' then (msgs, evs3, refresh_handler (RuntimeError ''Search failed''))
                      else
                        (case search_ids data of
                           Inl e \<Rightarrow> (msgs, evs3, refresh_handler e)
                         | Inr ids \<Rightarrow>
                             if ids = [] then ([], evs3 @ [Imap_close, Imap_logout], Inbox_is_empty)
                             else
                               (case fetch_loop lib srv (rev (last_20 ids)) [] evs3 of
                                  (Some e, msgs', evs4) \<Rightarrow> (msgs', evs4, refresh_handler e)
                                | (None, msgs', evs4) \<Rightarrow>
                                    (msgs', evs4 @ [Imap_close, Imap_logout], Emails_loaded))))))"

definition on_refresh :: "pylib \<Rightarrow> imap_server \<Rightarrow> frame \<Rightarrow> frame \<times> imap_event list \<times> refresh_outcome" where
  "on_refresh lib srv st =
     (case active_account st of
        None \<Rightarrow> (st, [], Refresh_no_active_account)
      | Some a \<Rightarrow>
          (let acc = objects st a;
               evs0 = (if imap_port acc = 993 then [IMAP4_SSL (imap_server acc) (imap_port acc)]
                       else [IMAP4 (imap_server acc) (imap_port acc)])
           in case imap_connect srv of
                Some e \<Rightarrow> (st, evs0, refresh_handler e)
              | None \<Rightarrow>
                  (case refresh_session lib srv acc (messages st)
                          (if imap_port acc = 993 then evs0 else evs0 @ [Imap_starttls]) of
                     (msgs, evs, outcome) \<Rightarrow> (st\<lparr>messages := msgs\<rparr>, evs, outcome))))"

section \<open>Sending a message\<close>

record smtp_server =
  smtp_connect :: "py_error option"
  smtp_starttls :: "py_error option"
  smtp_login :: "py_error option"
  smtp_sendmail :: "py_error option"

datatype smtp_event =
    SMTP_SSL string int
  | SMTP string int
  | Smtp_starttls
  | Smtp_login string string
  | Smtp_sendmail string "string list" string
  | Smtp_quit

text \<open>What the user does with the compose dialog: the texts of To, Subject and body.\<close>

datatype compose_action = Compose_send string string string | Compose_cancel

datatype compose_outcome = Compose_no_active_account | Compose_cancelled
  | Enter_at_least_one_recipient | No_valid_recipients | Email_sent | SMTP_error_box py_error

text \<open>\<open>[a.strip() for a in to_addr.split(",") if a.strip()]\<close>\<close>

definition recipients_of :: "string \<Rightarrow> string list" where
  "recipients_of to_addr = map strip (filter (\<lambda>a. strip a \<noteq> []) (py_split CHR '','' to_addr))"

definition crlf :: string where
  "crlf = [CHR 0x0D, CHR 0x0A]"

definition msg_str :: "AccountConfig \<Rightarrow> string list \<Rightarrow> string \<Rightarrow> string \<Rightarrow> string" where
  "msg_str acc recipients subject body =
     py_join crlf
       [''From: '' @ email acc,
        ''To: '' @ py_join '', '' recipients,
        ''Subject: '' @ subject,
        [],
        body]"

text \<open>The \<open>try\<close> block of \<open>on_compose\<close>: every exception ends in the same message box.\<close>

definition send_session :: "smtp_server \<Rightarrow> AccountConfig \<Rightarrow> string list \<Rightarrow> string
    \<Rightarrow> smtp_event list \<times> compose_outcome" where
  "send_session srv acc recipients text =
     (let evs0 = (if smtp_port acc = 465 then [SMTP_SSL (smtp_server acc) (smtp_port acc)]
                  else [SMTP (smtp_server acc) (smtp_port acc)])
      in case smtp_connect srv of
           Some e \<Rightarrow> (evs0, SMTP_error_box e)
         | None \<Rightarrow>
             (let evs1 = (if smtp_port acc = 465 then evs0 else evs0 @ [Smtp_starttls]) @
                         [Smtp_login (email acc) (password acc)]
              in case smtp_login srv of
                   Some e \<Rightarrow> (evs1, SMTP_error_box e)
                 | None \<Rightarrow>
                     (let evs2 = evs1 @ [Smtp_sendmail (email acc) recipients text]
                      in case smtp_sendmail srv of
                           Some e \<Rightarrow> (evs2, SMTP_error_box e)
                         | None \<Rightarrow> (evs2 @ [Smtp_quit], Email_sent))))"

text \<open>
  \<open>on_compose\<close>, with \<open>ComposeDialog.get_values\<close>, which strips the To text: the SMTP
  commands sent and the outcome. The frame is not changed.
\<close>

definition on_compose :: "smtp_server \<Rightarrow> frame \<Rightarrow> compose_action \<Rightarrow> smtp_event list \<times> compose_outcome" where
  "on_compose srv st action =
     (case active_account st of
        None \<Rightarrow> ([], Compose_no_active_account)
      | Some a \<Rightarrow>
          (case action of
             Compose_cancel \<Rightarrow> ([], Compose_cancelled)
           | Compose_send to_text subject body \<Rightarrow>
               (let acc = objects st a; to_addr = strip to_text in
                if to_addr = [] then ([], Enter_at_least_one_recipient)
                else
                  (let recipients = recipients_of to_addr in
                   if recipients = [] then ([], No_valid_recipients)
                   else send_session srv acc recipients (msg_str acc recipients subject body)))))"

section \<open>Notions used to state the properties of the frame\<close>

text \<open>The message a \<open>FETCH\<close> of an identifier contributes: none when the loop skips it.\<close>

definition fetched_message :: "pylib \<Rightarrow> imap_server \<Rightarrow> string \<Rightarrow> message option" where
  "fetched_message lib srv i =
     (case imap_fetch srv i of
        Returns (status, Item_pair line raw # items) \<Rightarrow>
          if status = ''OK'' then Some (build_message lib i (message_from_bytes lib raw)) else None
      | _ \<Rightarrow> None)"

text \<open>
  The responses the guard of the loop recognises: a status other than \<open>OK\<close>, no data, or
  \<open>None\<close> as the first item.
\<close>

definition skipped :: "(string \<times> fetch_item list) reply \<Rightarrow> bool" where
  "skipped r =
     (case r of
        Raises e \<Rightarrow> False
      | Returns (status, msg_data) \<Rightarrow>
          (case msg_data of [] \<Rightarrow> True | item # items \<Rightarrow> status \<noteq> ''OK'' \<or> item = Item_none))"

text \<open>A response that carries a message: status \<open>OK\<close> and a pair as the first item.\<close>

definition has_message :: "(string \<times> fetch_item list) reply \<Rightarrow> bool" where
  "has_message r =
     (case r of
        Returns (status, Item_pair line raw # items) \<Rightarrow> status = ''OK''
      | _ \<Rightarrow> False)"

definition fetched_ids :: "imap_event list \<Rightarrow> string list" where
  "fetched_ids evs = concat (map (\<lambda>e. case e of Imap_fetch i \<Rightarrow> [i] | _ \<Rightarrow> []) evs)"

text \<open>The connection and the commands up to \<open>SEARCH\<close>, for an account.\<close>

definition session_start :: "AccountConfig \<Rightarrow> imap_event list" where
  "session_start acc =
     (if imap_port acc = 993 then [IMAP4_SSL (imap_server acc) (imap_port acc)]
      else [IMAP4 (imap_server acc) (imap_port acc), Imap_starttls])
     @ [Imap_login (email acc) (password acc), Imap_select ''INBOX'', Imap_search]"

text \<open>The server answers up to \<open>SEARCH\<close> without an error, and \<open>SEARCH\<close> gives these identifiers.\<close>

definition search_gives :: "imap_server \<Rightarrow> string list \<Rightarrow> bool" where
  "search_gives srv ids =
     (imap_connect srv = None \<and> imap_login srv = None \<and> imap_select srv = Returns ''OK''
      \<and> (case imap_search srv of
            Returns (status, Some b # rest) \<Rightarrow> status = ''OK'' \<and> split_whitespace b = ids
          | _ \<Rightarrow> False))"


text \<open>
  The data model of the account manager: the keys of the dictionary are distinct, every
  account is stored under its own name, and the active account is one of the dictionary.
\<close>

definition frame_ok :: "frame \<Rightarrow> bool" where
  "frame_ok st =
     (distinct (map fst (accounts st))
      \<and> list_all (\<lambda>kv. name (objects st (snd kv)) = fst kv) (accounts st)
      \<and> (case active_account st of None \<Rightarrow> True | Some a \<Rightarrow> a \<in> set (map snd (accounts st))))"

text \<open>
  Every account of the dictionary has values the store file can carry: a name without a
  newline, and fields without a newline or surrounding whitespace.
\<close>

definition storable :: "frame \<Rightarrow> bool" where
  "storable st = list_all (\<lambda>kv. good_account (fst kv) (objects st (snd kv))) (accounts st)"


section \<open>Example inputs\<close>

text \<open>Store files used to run the definitions on concrete inputs.\<close>

definition text_lines :: "string list \<Rightarrow> string" where
  "text_lines ls = concat (map (\<lambda>l. l @ [newline]) ls)"

definition store_bad_port :: string where
  "store_bad_port = text_lines [''[account work]'', ''email=me@example.org'', ''imap_port=abc'']"

definition store_default_ports :: string where
  "store_default_ports =
     text_lines [''[account home]'', ''email=a@b.org'', ''imap_port='', ''smtp_server=smtp.b.org'']"

definition store_duplicate :: string where
  "store_duplicate =
     text_lines [''[account a]'', ''email=old@x.org'', ''smtp_port=25'', '''',
                 ''[account b]'', ''email=b@x.org'', '''',
                 ''[account a]'', ''email=new@x.org'']"

definition store_two :: string where
  "store_two =
     text_lines [''[account first]'', ''email = f@x.org '', ''password=pw'', ''imap_port=0143'',
                 ''unknown=1'', '''', ''[account second]'', ''imap_server=imap.y.org'',
                 ''smtp_port=-1'']"

text \<open>
  A stand-in for the standard library: UTF-8 and ASCII decode bytes as they are, no
  other charset is known, a header has one text fragment, and a message parses to a
  single text part.
\<close>

definition ascii_lib :: pylib where
  "ascii_lib =
     \<lparr> codec = (\<lambda>charset b. if charset = ''utf-8'' \<or> charset = ''us-ascii'' then Some b else None),
       decode_header = (\<lambda>v. Some [Text v]),
       message_from_bytes = (\<lambda>raw. Leaf [(''Subject'', raw)] ''text/plain'' None (Some raw)) \<rparr>"

definition html_part :: email_msg where
  "html_part = Leaf [] ''text/html'' None (Some ''<p>hi</p>'')"

definition html_only :: email_msg where
  "html_only = Multipart [(''Subject'', ''hi'')] ''multipart/alternative'' None [html_part]"

definition work_account :: AccountConfig where
  "work_account =
     \<lparr> name = ''work'', email = ''me@example.org'', password = ''pw'',
       imap_server = ''imap.example.org'', imap_port = 993,
       smtp_server = ''smtp.example.org'', smtp_port = 587 \<rparr>"

definition home_account :: AccountConfig where
  "home_account =
     \<lparr> name = ''home'', email = ''me@home.org'', password = ''secret'',
       imap_server = ''imap.home.org'', imap_port = 143,
       smtp_server = ''smtp.home.org'', smtp_port = 465 \<rparr>"

definition example_frame :: frame where
  "example_frame =
     \<lparr> objects = (\<lambda>a. if a = 0 then work_account else home_account),
       accounts = [(''work'', 0), (''home'', 1)],
       active_account = Some 0,
       messages = [\<lparr>msg_id = ''7'', msg_subject = ''old'', msg_from = [], msg_to = [],
                    msg_body = Some []\<rparr>],
       accounts_file = None \<rparr>"

definition good_fetch :: "string \<Rightarrow> (string \<times> fetch_item list) reply" where
  "good_fetch i = Returns (''OK'', [Item_pair (i @ '' (RFC822 {4}'') (''mail'' @ i), Item_bytes '')''])"

definition inbox :: "string \<Rightarrow> (string \<Rightarrow> (string \<times> fetch_item list) reply) \<Rightarrow> imap_server" where
  "inbox ids fetch =
     \<lparr> imap_connect = None, imap_starttls = None, imap_login = None,
       imap_select = Returns ''OK'', imap_search = Returns (''OK'', [Some ids]),
       imap_fetch = fetch \<rparr>"

definition smtp_up :: smtp_server where
  "smtp_up = \<lparr> smtp_connect = None, smtp_starttls = None, smtp_login = None, smtp_sendmail = None \<rparr>"

text \<open>A server that refuses \<open>SELECT\<close>, and one whose answer to one \<open>FETCH\<close> starts with a flags line.\<close>

definition select_refused :: imap_server where
  "select_refused = (inbox ''1 2'' good_fetch)\<lparr>imap_select := Returns ''NO''\<rparr>"

definition flags_first :: imap_server where
  "flags_first =
     inbox ''1 2 3''
       (\<lambda>i. if i = ''2''
            then Returns (''OK'', [Item_bytes ''2 (FLAGS (Seen))'',
                                   Item_pair ''2 (RFC822 {5}'' ''mail2'', Item_bytes '')''])
            else good_fetch i)"

definition one_missing :: imap_server where
  "one_missing =
     inbox ''1 2 3'' (\<lambda>i. if i = ''2'' then Returns (''OK'', [Item_none]) else good_fetch i)"

definition ids_25 :: "string list" where
  "ids_25 =
     [''101'', ''102'', ''103'', ''104'', ''105'', ''106'', ''107'', ''108'', ''109'', ''110'',
      ''111'', ''112'', ''113'', ''114'', ''115'', ''116'', ''117'', ''118'', ''119'', ''120'',
      ''121'', ''122'', ''123'', ''124'', ''125'']"

definition inbox_25 :: imap_server where
  "inbox_25 = inbox (py_join '' '' ids_25) good_fetch"

text \<open>
  A store file with a \<open>name\<close> key inside a block, and the frame of an application that
  started from it and refreshed the inbox of its active account once.
\<close>

definition store_name_key :: string where
  "store_name_key = text_lines [''[account a]'', ''name=b'', '''', ''[account b]'', ''email=b@x.org'']"


text \<open>
  A store file whose first block has a malformed port and is shadowed by a second block
  of the same name.
\<close>

definition store_shadowed :: string where
  "store_shadowed =
     text_lines [''[account a]'', ''imap_port=abc'', '''', ''[account a]'', ''email=new@x.org'']"

section \<open>Strings, integers and the store: lemmas\<close>

lemma is_space_newline: "is_space newline"
  by (simp add: is_space_def newline_def)

lemma strip_Nil: "strip [] = []"
  by (simp add: strip_def)

lemma strip_snoc_space: 
  assumes "is_space c" shows "strip (s @ [c]) = strip s"
proof (cases "\<forall>x\<in>set s. is_space x")
  case True
  then have 1: "dropWhile is_space (s @ [c]) = []" using assms 
    by (subst dropWhile_eq_Nil_conv) simp
  from True have 2: "dropWhile is_space s = []"
    by (subst dropWhile_eq_Nil_conv) simp
  show ?thesis unfolding strip_def 1 2 by simp
next
  case False
  then obtain x where "x \<in> set s" "\<not> is_space x" by blast
  then have "dropWhile is_space (s @ [c]) = dropWhile is_space s @ [c]"
    by (rule dropWhile_append1)
  then show ?thesis using assms by (simp add: strip_def)
qed

lemma set_strip: "set (strip s) \<subseteq> set s"
proof
  fix x assume "x \<in> set (strip s)"
  then have "x \<in> set (dropWhile is_space (rev (dropWhile is_space s)))"
    by (simp add: strip_def)
  then have "x \<in> set (rev (dropWhile is_space s))" by (rule set_dropWhileD)
  then have "x \<in> set (dropWhile is_space s)" by simp
  then show "x \<in> set s" by (rule set_dropWhileD)
qed

lemma strip_id:
  assumes "s = [] \<or> (\<not> is_space (hd s) \<and> \<not> is_space (last s))"
  shows "strip s = s"
proof (cases s)
  case Nil
  then show ?thesis by (simp add: strip_def)
next
  case (Cons c cs)
  with assms have h: "\<not> is_space c" and l: "\<not> is_space (last s)" by auto
  have 1: "dropWhile is_space s = s" using Cons h by simp
  have "s = butlast s @ [last s]" using Cons by simp
  then have "rev s = rev (butlast s @ [last s])" by simp
  then have ys: "rev s = last s # rev (butlast s)" by (simp only: rev_append rev.simps append.simps)
  have 2: "dropWhile is_space (rev s) = rev s" unfolding ys using l by simp
  show ?thesis by (simp add: strip_def 1 2)
qed

lemma strip_ends:
  assumes "strip s \<noteq> []"
  shows "\<not> is_space (hd (strip s)) \<and> \<not> is_space (last (strip s))"
proof -
  let ?a = "dropWhile is_space s"
  let ?b = "dropWhile is_space (rev ?a)"
  from assms have b: "?b \<noteq> []" by (simp add: strip_def)
  then have hb: "\<not> is_space (hd ?b)" by (rule hd_dropWhile)
  have last: "last (strip s) = hd ?b" using b unfolding strip_def by (metis last_rev)
  have a: "?a \<noteq> []"
  proof
    assume "?a = []"
    then have "?b = []" by (simp only: rev.simps dropWhile.simps)
    with b show False ..
  qed
  then have ha: "\<not> is_space (hd ?a)" by (rule hd_dropWhile)
  have "takeWhile is_space (rev ?a) @ ?b = rev ?a" by (rule takeWhile_dropWhile_id)
  then have "rev (takeWhile is_space (rev ?a) @ ?b) = ?a" by (simp only: rev_rev_ident)
  then have "rev ?b @ rev (takeWhile is_space (rev ?a)) = ?a" by (simp only: rev_append)
  moreover have "rev ?b \<noteq> []" using b by (simp only: rev_is_Nil_conv not_False_eq_True)
  ultimately have "hd ?a = hd (rev ?b)" by (metis hd_append2)
  then have "\<not> is_space (hd (strip s))" using ha unfolding strip_def by simp
  with last hb show ?thesis by simp
qed

lemma strip_strip: "strip (strip s) = strip s"
  by (rule strip_id) (use strip_ends in blast)

lemma py_lines_line:
  "newline \<notin> set l \<Longrightarrow> py_lines (l @ newline # rest) = (l @ [newline]) # py_lines rest"
  by (induction l) auto

lemma py_lines_concat:
  "\<forall>l\<in>set ls. \<exists>l'. l = l' @ [newline] \<and> newline \<notin> set l' \<Longrightarrow> py_lines (concat ls) = ls"
proof (induction ls)
  case Nil
  then show ?case by simp
next
  case (Cons l ls)
  then obtain l' where l': "l = l' @ [newline]" "newline \<notin> set l'" by auto
  have "py_lines (concat (l # ls)) = py_lines (l' @ newline # concat ls)" 
    using l' by simp
  also have "\<dots> = (l' @ [newline]) # py_lines (concat ls)" 
    using l'(2) by (rule py_lines_line)
  finally show ?case using Cons l' by simp
qed

lemma py_lines_shape:
  "l \<in> set (py_lines s) \<Longrightarrow> newline \<notin> set (butlast l)"
proof (induction s arbitrary: l)
  case Nil
  then show ?case by simp
next
  case (Cons c cs)
  show ?case
  proof (cases "c = newline")
    case True
    with Cons show ?thesis by auto
  next
    case False
    show ?thesis
    proof (cases "py_lines cs")
      case Nil
      with Cons False show ?thesis by auto
    next
      case (Cons l0 ls)
      with Cons.prems False have "l = c # l0 \<or> l \<in> set ls" by auto
      then show ?thesis
      proof
        assume "l = c # l0"
        moreover have "newline \<notin> set (butlast l0)" using Cons.IH Cons by simp
        ultimately show ?thesis using False by (cases l0) auto
      next
        assume "l \<in> set ls"
        then show ?thesis using Cons.IH Cons by simp
      qed
    qed
  qed
qed

lemma strip_no_newline:
  assumes "newline \<notin> set (butlast l)"
  shows "newline \<notin> set (strip l)"
proof (cases "l = []")
  case True
  then show ?thesis by (simp add: strip_def)
next
  case False
  then have l: "l = butlast l @ [last l]" by simp
  show ?thesis
  proof (cases "last l = newline")
    case True
    then have "strip l = strip (butlast l)" 
      using strip_snoc_space [OF is_space_newline, of "butlast l"] l by simp
    then show ?thesis using assms set_strip [of "butlast l"] by auto
  next
    case False
    then have "newline \<notin> set l" using assms l
      by (metis Un_iff empty_iff empty_set set_ConsD set_append)
    then show ?thesis using set_strip [of l] by auto
  qed
qed

lemma is_digit_digit_char: "d < 10 \<Longrightarrow> is_digit (digit_char d)"
  by (simp add: is_digit_def digit_char_def)

lemma digit_val_digit_char: "d < 10 \<Longrightarrow> digit_val (digit_char d) = d"
  by (simp add: digit_val_def digit_char_def)

lemma is_digit_not_space: "is_digit c \<Longrightarrow> \<not> is_space c"
  by (auto simp: is_digit_def is_space_def Let_def)

lemma is_digit_not_sign: "is_digit c \<Longrightarrow> c \<noteq> CHR ''-'' \<and> c \<noteq> CHR ''+'' \<and> c \<noteq> newline"
  by (auto simp: is_digit_def newline_def)

lemma str_nat_digits: "(\<forall>c\<in>set (str_nat n). is_digit c) \<and> str_nat n \<noteq> []"
proof (induction n rule: str_nat.induct)
  case (1 n)
  show ?case
  proof (cases "n < 10")
    case True
    then show ?thesis by (subst (1 2) str_nat.simps) (simp add: is_digit_digit_char)
  next
    case False
    then show ?thesis using 1 by (subst (1 2) str_nat.simps) (simp add: is_digit_digit_char)
  qed
qed

lemma digits_val_snoc: "digits_val (ds @ [c]) = 10 * digits_val ds + digit_val c"
  by (simp add: digits_val_def)

lemma digits_val_str_nat: "digits_val (str_nat n) = n"
proof (induction n rule: str_nat.induct)
  case (1 n)
  show ?case
  proof (cases "n < 10")
    case True
    then show ?thesis by (subst str_nat.simps) (simp add: digits_val_def digit_val_digit_char)
  next
    case False
    then have "digits_val (str_nat n) = 10 * digits_val (str_nat (n div 10)) + digit_val (digit_char (n mod 10))"
      by (subst str_nat.simps) (simp add: digits_val_snoc)
    also have "\<dots> = 10 * (n div 10) + n mod 10"
      using 1 False by (simp add: digit_val_digit_char)
    finally show ?thesis by simp
  qed
qed

lemma literal_digits_all:
  "\<forall>c\<in>set ds. is_digit c \<Longrightarrow> ds \<noteq> [] \<or> prev \<Longrightarrow> literal_digits prev ds = Some ds"
  by (induction ds arbitrary: prev) auto

lemma unsigned_int_str_nat: "unsigned_int (str_nat n) = Inr (int n)"
  using str_nat_digits [of n]
  by (simp add: unsigned_int_def literal_digits_all digits_val_str_nat)

lemma strip_digits: 
  assumes "\<forall>c\<in>set ds. is_digit c" shows "strip ds = ds"
proof (rule strip_id, cases ds)
  case Nil then show "ds = [] \<or> (\<not> is_space (hd ds) \<and> \<not> is_space (last ds))" by simp
next
  case (Cons c cs)
  then have "hd ds \<in> set ds" "last ds \<in> set ds" by auto
  then show "ds = [] \<or> (\<not> is_space (hd ds) \<and> \<not> is_space (last ds))" 
    using assms is_digit_not_space by blast
qed

lemma py_str_clean: "strip (py_str n) = py_str n \<and> py_str n \<noteq> [] \<and> newline \<notin> set (py_str n)"
proof -
  have d: "\<forall>c\<in>set (str_nat m). is_digit c" "str_nat m \<noteq> []" for m
    using str_nat_digits by auto
  have nl: "newline \<notin> set (str_nat m)" for m using d(1) is_digit_not_sign by blast
  show ?thesis
  proof (cases "n < 0")
    case True
    have "\<not> is_space (last (str_nat (nat (- n))))" 
      using d [of "nat (- n)"] is_digit_not_space last_in_set by blast
    then have "strip (CHR ''-'' # str_nat (nat (- n))) = CHR ''-'' # str_nat (nat (- n))"
      using d(2) [of "nat (- n)"] by (intro strip_id) (simp add: is_space_def)
    then show ?thesis using True nl by (simp add: py_str_def newline_def)
  next
    case False
    then show ?thesis using strip_digits d nl by (simp add: py_str_def)
  qed
qed

lemma strip_pred_id:
  assumes "s = [] \<or> (\<not> P (hd s) \<and> \<not> P (last s))"
  shows "rev (dropWhile P (rev (dropWhile P s))) = s"
proof (cases s)
  case Nil
  then show ?thesis by simp
next
  case (Cons c cs)
  with assms have h: "\<not> P c" and l: "\<not> P (last s)" by auto
  have 1: "dropWhile P s = s" using Cons h by simp
  have "s = butlast s @ [last s]" using Cons by simp
  then have "rev s = rev (butlast s @ [last s])" by simp
  then have ys: "rev s = last s # rev (butlast s)" by (simp only: rev_append rev.simps append.simps)
  have 2: "dropWhile P (rev s) = rev s" unfolding ys using l by simp
  show ?thesis by (simp add: 1 2)
qed

lemma is_int_space_is_space: "is_int_space c \<Longrightarrow> is_space c"
  by (auto simp: is_int_space_def is_space_def Let_def)

lemma int_strip_clean:
  assumes "strip s = s"
  shows "int_strip s = s"
proof (cases "s = []")
  case True
  then show ?thesis by (simp add: int_strip_def)
next
  case False
  then have "\<not> is_space (hd s) \<and> \<not> is_space (last s)"
    using strip_ends [of s] assms by simp
  then have "\<not> is_int_space (hd s) \<and> \<not> is_int_space (last s)"
    using is_int_space_is_space by blast
  then show ?thesis
    unfolding int_strip_def using strip_pred_id [of s is_int_space] by simp
qed

lemma py_int_py_str: "py_int (py_str n) = Inr n"
proof (cases "n < 0")
  case True
  have "int_strip (py_str n) = CHR ''-'' # str_nat (nat (- n))"
    using py_str_clean [of n] int_strip_clean [of "py_str n"] True by (simp add: py_str_def)
  then show ?thesis using True by (simp add: py_int_def unsigned_int_str_nat)
next
  case False
  obtain c cs where ccs: "str_nat (nat n) = c # cs" 
    using str_nat_digits [of "nat n"] by (cases "str_nat (nat n)") auto
  then have "is_digit c" using str_nat_digits [of "nat n"] by simp
  then have c: "c \<noteq> CHR ''-''" "c \<noteq> CHR ''+''" using is_digit_not_sign by auto
  have "int_strip (py_str n) = c # cs"
    using py_str_clean [of n] int_strip_clean [of "py_str n"] False ccs by (simp add: py_str_def)
  then have "py_int (py_str n) = unsigned_int (c # cs)" using c by (simp add: py_int_def)
  also have "\<dots> = Inr (int (nat n))" using unsigned_int_str_nat [of "nat n"] ccs by simp
  finally show ?thesis using False by simp
qed

lemma map_of_dict_set: "map_of (dict_set d k v) = (map_of d)(k \<mapsto> v)"
  by (induction d) (auto simp: fun_eq_iff)

lemma keys_dict_set: "fst ` set (dict_set d k v) = insert k (fst ` set d)"
  by (simp add: dom_map_of_conv_image_fst [symmetric] map_of_dict_set)

lemma distinct_dict_set: "distinct (map fst d) \<Longrightarrow> distinct (map fst (dict_set d k v))"
proof (induction d)
  case Nil then show ?case by simp
next
  case (Cons a d)
  then show ?case using keys_dict_set [of d k v] by (cases a) auto
qed

lemma dict_set_new: "k \<notin> fst ` set d \<Longrightarrow> dict_set d k v = d @ [(k, v)]"
  by (induction d) auto

lemma dict_set_not_Nil: "dict_set d k v \<noteq> []"
  by (cases d) (auto split: if_splits)

lemma set_dict_set: "set (dict_set d k v) \<subseteq> insert (k, v) (set d)"
  by (induction d) (auto split: if_splits)

lemma proper_py_lines: "proper_lines (py_lines s)"
proof (induction s)
  case Nil
  then show ?case by simp
next
  case (Cons c cs)
  show ?case
  proof (cases "c = newline")
    case True
    then show ?thesis using Cons by (cases "py_lines cs") auto
  next
    case False
    show ?thesis
    proof (cases "py_lines cs")
      case Nil
      then show ?thesis using False by simp
    next
      case (Cons l ls)
      then have "proper_lines (l # ls)" using Cons.IH by simp
      then have "proper_lines ((c # l) # ls)" using False by (cases ls) auto
      then show ?thesis using Cons False by simp
    qed
  qed
qed

lemma proper_lines_suffix: "proper_lines (xs @ ys) \<Longrightarrow> proper_lines ys"
proof (induction xs)
  case Nil then show ?case by simp
next
  case (Cons x xs)
  then show ?case by (cases "xs @ ys") auto
qed

lemma proper_lines_prefix: "proper_lines (xs @ ys) \<Longrightarrow> proper_lines xs"
proof (induction xs)
  case Nil then show ?case by simp
next
  case (Cons x xs)
  then show ?case by (cases xs; cases "xs @ ys") auto
qed

lemma py_lines_proper: "proper_lines ls \<Longrightarrow> py_lines (concat ls) = ls"
proof (induction ls rule: proper_lines.induct)
  case 1
  then show ?case by simp
next
  case (2 l)
  then have "l \<noteq> []" "newline \<notin> set (butlast l)" by auto
  then show ?case
  proof (induction l)
    case Nil then show ?case by simp
  next
    case (Cons c cs)
    then show ?case by (cases cs) (auto split: list.splits if_splits)
  qed
next
  case (3 l l2 ls)
  then have "l \<noteq> []" "last l = newline" and nl: "newline \<notin> set (butlast l)" by auto
  then have "l = butlast l @ [newline]" by (metis append_butlast_last_id)
  with nl have l: "l = butlast l @ [newline]" "newline \<notin> set (butlast l)" by auto
  have "py_lines (concat (l # l2 # ls)) = py_lines (butlast l @ newline # concat (l2 # ls))"
    by (subst l(1)) simp
  also have "\<dots> = (butlast l @ [newline]) # py_lines (concat (l2 # ls))"
    using l(2) by (rule py_lines_line)
  finally show ?case using l(1) 3 by simp
qed

lemma load_lines_append:
  "load_lines st (xs @ ys) =
     (case load_lines st xs of Inl e \<Rightarrow> Inl e | Inr st' \<Rightarrow> load_lines st' ys)"
  by (induction xs arbitrary: st) (auto split: sum.splits)

lemma load_line_body:
  "\<not> is_header (strip raw) \<Longrightarrow> load_line (a, cur, cn) raw = Inr (a, kv_line cur raw, cn)"
  by (auto simp: load_line_def kv_line_def kv_of_def Let_def split: prod.splits)

lemma load_lines_body:
  "\<forall>l\<in>set body. \<not> is_header (strip l) \<Longrightarrow>
   load_lines (a, cur, cn) body = Inr (a, foldl kv_line cur body, cn)"
  by (induction body arbitrary: cur) (auto simp: load_line_body)

lemma is_header_not_Nil: "is_header l \<Longrightarrow> l \<noteq> []"
  by (auto simp: is_header_def startswith_def)

lemma load_line_header:
  "is_header (strip h) \<Longrightarrow>
   load_line st h =
     (case commit st of
        Inl e \<Rightarrow> Inl e
      | Inr a' \<Rightarrow> Inr (a', [(''name'', header_name (strip h))], Some (header_name (strip h))))"
  by (auto simp: load_line_def Let_def is_header_not_Nil split: prod.splits)

lemma kv_line_not_Nil: "cur \<noteq> [] \<Longrightarrow> kv_line cur raw \<noteq> []"
  by (simp add: kv_line_def dict_set_not_Nil split: option.splits)

lemma kv_lines_not_Nil: "cur \<noteq> [] \<Longrightarrow> foldl kv_line cur body \<noteq> []"
  by (induction body arbitrary: cur) (auto simp: kv_line_not_Nil)

lemma commit_other:
  "commit (a, cur, cn) = Inr a' \<Longrightarrow> cn \<noteq> Some n \<Longrightarrow> map_of a' n = map_of a n"
  by (auto simp: commit_def map_of_dict_set split: option.splits if_splits sum.splits)

lemma commit_this:
  "commit (a, cur, Some n) = Inr a' \<Longrightarrow> n \<noteq> [] \<Longrightarrow> cur \<noteq> [] \<Longrightarrow>
   \<exists>cfg. from_dict cur = Inr cfg \<and> a' = dict_set a n cfg"
  by (auto simp: commit_def split: sum.splits)

lemma load_lines_keeps:
  "load_lines (a, cur, cn) ls = Inr (a', cur', cn') \<Longrightarrow> cn \<noteq> Some n \<Longrightarrow>
   \<forall>l\<in>set ls. is_header (strip l) \<longrightarrow> header_name (strip l) \<noteq> n \<Longrightarrow>
   map_of a' n = map_of a n \<and> cn' \<noteq> Some n"
proof (induction ls arbitrary: a cur cn)
  case Nil
  then show ?case by simp
next
  case (Cons l ls)
  from Cons.prems(1) obtain a1 cur1 cn1 where
    step: "load_line (a, cur, cn) l = Inr (a1, cur1, cn1)" and
    rest: "load_lines (a1, cur1, cn1) ls = Inr (a', cur', cn')"
    by (auto split: sum.splits)
  have "map_of a1 n = map_of a n \<and> cn1 \<noteq> Some n"
  proof (cases "is_header (strip l)")
    case True
    then show ?thesis using step Cons.prems(2,3) commit_other [of a cur cn _ n]
      by (auto simp: load_line_header split: sum.splits)
  next
    case False
    then show ?thesis using step Cons.prems(2) by (simp add: load_line_body)
  qed
  moreover have "map_of a' n = map_of a1 n \<and> cn' \<noteq> Some n"
    using Cons.IH [OF rest] calculation Cons.prems(3) by simp
  ultimately show ?case by simp
qed

lemma last_block_lookup:
  assumes dec: "py_lines content = pre @ h # body @ rest"
    and h: "is_header (strip h)" "header_name (strip h) = n" "n \<noteq> []"
    and body: "\<forall>l\<in>set body. \<not> is_header (strip l)"
    and rest: "rest \<noteq> [] \<longrightarrow> is_header (strip (hd rest))"
    and later: "\<forall>l\<in>set rest. is_header (strip l) \<longrightarrow> header_name (strip l) \<noteq> n"
    and ok: "load_all_accounts (Some content) = Inr accs"
  shows "\<exists>cfg. from_dict (foldl kv_line [(''name'', n)] body) = Inr cfg
      \<and> load_all_accounts (Some (concat (h # body))) = Inr [(n, cfg)]
      \<and> map_of accs n = Some cfg"
proof -
  let ?cur = "foldl kv_line [(''name'', n)] body"
  have cur: "?cur \<noteq> []" by (rule kv_lines_not_Nil) simp
  from ok dec obtain stf where
    all: "load_lines ([], [], None) (pre @ h # body @ rest) = Inr stf" and
    fin: "commit stf = Inr accs"
    by (auto simp: load_all_accounts_def split: sum.splits)
  from all obtain st0 where
    pre: "load_lines ([], [], None) pre = Inr st0" and
    t0: "load_lines st0 (h # body @ rest) = Inr stf"
    by (auto simp: load_lines_append split: sum.splits)
  from t0 h obtain a1 where
    a1: "commit st0 = Inr a1" and
    t1: "load_lines (a1, [(''name'', n)], Some n) (body @ rest) = Inr stf"
    by (auto simp: load_line_header split: sum.splits)
  from t1 body have t2: "load_lines (a1, ?cur, Some n) rest = Inr stf"
    by (simp add: load_lines_append load_lines_body)
  have "\<exists>cfg. from_dict ?cur = Inr cfg \<and> map_of accs n = Some cfg"
  proof (cases rest)
    case Nil
    with t2 fin have "commit (a1, ?cur, Some n) = Inr accs" by simp
    from commit_this [OF this h(3) cur] show ?thesis by (auto simp: map_of_dict_set)
  next
    case (Cons r rs)
    with rest have hr: "is_header (strip r)" by simp
    from later Cons hr have ne: "header_name (strip r) \<noteq> n" by simp
    from t2 Cons hr obtain a2 where
      a2: "commit (a1, ?cur, Some n) = Inr a2" and
      t3: "load_lines (a2, [(''name'', header_name (strip r))], Some (header_name (strip r))) rs = Inr stf"
      by (auto simp: load_line_header split: sum.splits)
    from commit_this [OF a2 h(3) cur] obtain cfg where
      cfg: "from_dict ?cur = Inr cfg" "a2 = dict_set a1 n cfg" by blast
    obtain af curf cnf where stf: "stf = (af, curf, cnf)" by (cases stf) auto
    have "map_of af n = map_of a2 n \<and> cnf \<noteq> Some n"
      using load_lines_keeps [OF t3 [unfolded stf], of n] ne later Cons by auto
    moreover have "map_of accs n = map_of af n"
      using commit_other [OF fin [unfolded stf]] calculation by simp
    ultimately show ?thesis using cfg by (simp add: map_of_dict_set)
  qed
  then obtain cfg where cfg: "from_dict ?cur = Inr cfg" "map_of accs n = Some cfg" by blast
  have "proper_lines (h # body)"
    using proper_py_lines [of content] dec
    by (metis append_Cons append_assoc proper_lines_prefix proper_lines_suffix)
  then have "py_lines (concat (h # body)) = h # body" by (rule py_lines_proper)
  then have "load_all_accounts (Some (concat (h # body))) = Inr [(n, cfg)]"
    using h body cfg(1) cur
    by (simp add: load_all_accounts_def load_line_header commit_def load_lines_body)
  with cfg show ?thesis by blast
qed

lemma py_int_993: "py_int ''993'' = Inr 993"
  by code_simp

lemma py_int_587: "py_int ''587'' = Inr 587"
  by code_simp

lemma port_of_ok:
  assumes "ports_ok d" "is_port_key k" "is_int_literal dflt"
  shows "\<exists>p. port_of d k dflt fb = Inr p"
proof (cases "map_of d k")
  case None
  then show ?thesis using assms(3)
    by (auto simp: port_of_def dict_get_def Let_def is_int_literal_def split: sum.splits)
next
  case (Some v)
  then have "v = [] \<or> is_int_literal v" using assms(1,2) by (simp add: ports_ok_def)
  then show ?thesis using Some
    by (auto simp: port_of_def dict_get_def Let_def is_int_literal_def split: sum.splits)
qed

lemma from_dict_ok:
  assumes "ports_ok d"
  shows "\<exists>cfg. from_dict d = Inr cfg"
proof -
  obtain ip where ip: "port_of d ''imap_port'' ''993'' 993 = Inr ip"
    using port_of_ok [OF assms, of "''imap_port''" "''993''" 993]
    by (auto simp: is_port_key_def is_int_literal_def py_int_993)
  obtain sp where sp: "port_of d ''smtp_port'' ''587'' 587 = Inr sp"
    using port_of_ok [OF assms, of "''smtp_port''" "''587''" 587]
    by (auto simp: is_port_key_def is_int_literal_def py_int_587)
  show ?thesis by (simp add: from_dict_def ip sp)
qed

lemma commit_ok: "ports_ok cur \<Longrightarrow> \<exists>a'. commit (a, cur, cn) = Inr a'"
  using from_dict_ok [of cur] by (auto simp: commit_def split: option.splits)

lemma ports_ok_kv_line: "ports_ok cur \<Longrightarrow> port_line_ok raw \<Longrightarrow> ports_ok (kv_line cur raw)"
  by (auto simp: ports_ok_def kv_line_def port_line_ok_def map_of_dict_set split: option.splits)

lemma ports_ok_header: "ports_ok [(''name'', n)]"
  by (simp add: ports_ok_def is_port_key_def)

lemma load_line_ok:
  assumes "ports_ok cur" "port_line_ok raw"
  shows "\<exists>a' cur' cn'. load_line (a, cur, cn) raw = Inr (a', cur', cn') \<and> ports_ok cur'"
proof (cases "is_header (strip raw)")
  case True
  then show ?thesis using commit_ok [OF assms(1), of a cn]
    by (auto simp: load_line_header ports_ok_header)
next
  case False
  then show ?thesis using assms by (simp add: load_line_body ports_ok_kv_line)
qed

lemma load_lines_ok:
  "ports_ok cur \<Longrightarrow> \<forall>l\<in>set ls. port_line_ok l \<Longrightarrow>
   \<exists>a' cur' cn'. load_lines (a, cur, cn) ls = Inr (a', cur', cn') \<and> ports_ok cur'"
proof (induction ls arbitrary: a cur cn)
  case Nil
  then show ?case by simp
next
  case (Cons l ls)
  then obtain a1 cur1 cn1 where 1: "load_line (a, cur, cn) l = Inr (a1, cur1, cn1)" "ports_ok cur1"
    using load_line_ok [of cur l a cn] by auto
  from Cons.IH [OF 1(2), of a1 cn1] Cons.prems(2) 1(1) show ?case by simp
qed

lemma load_ok:
  assumes "\<forall>l\<in>set (py_lines content). port_line_ok l"
  shows "\<exists>accs. load_all_accounts (Some content) = Inr accs"
proof -
  have "ports_ok []" by (simp add: ports_ok_def)
  from load_lines_ok [OF this assms, of "[]" None] obtain a' cur' cn' where
    "load_lines ([], [], None) (py_lines content) = Inr (a', cur', cn')" "ports_ok cur'" by blast
  then show ?thesis using commit_ok [of cur' a' cn'] by (auto simp: load_all_accounts_def)
qed

lemma port_unset_lookup:
  "port_unset k body \<Longrightarrow> map_of cur k = None \<or> map_of cur k = Some [] \<Longrightarrow>
   map_of (foldl kv_line cur body) k = None \<or> map_of (foldl kv_line cur body) k = Some []"
proof (induction body arbitrary: cur)
  case Nil
  then show ?case by simp
next
  case (Cons l body)
  have "map_of (kv_line cur l) k = None \<or> map_of (kv_line cur l) k = Some []"
    using Cons.prems by (auto simp: port_unset_def kv_line_def map_of_dict_set split: option.splits)
  moreover have "port_unset k body" using Cons.prems(1) by (simp add: port_unset_def)
  ultimately show ?case using Cons.IH by simp
qed

lemma port_of_unset:
  "map_of d k = None \<or> map_of d k = Some [] \<Longrightarrow> py_int dflt = Inr fb \<Longrightarrow> port_of d k dflt fb = Inr fb"
  by (auto simp: port_of_def dict_get_def Let_def)

lemma from_dict_ports:
  assumes "from_dict d = Inr cfg"
  shows "port_of d ''imap_port'' ''993'' 993 = Inr (imap_port cfg)"
    and "port_of d ''smtp_port'' ''587'' 587 = Inr (smtp_port cfg)"
  using assms by (auto simp: from_dict_def split: sum.splits)

lemma clean_Nil: "clean []"
  by (simp add: clean_def strip_def)

lemma clean_py_str: "clean (py_str n)"
  using py_str_clean [of n] by (simp add: clean_def)

lemma strip_line:
  assumes "s \<noteq> []" "\<not> is_space (hd s)" "\<not> is_space (last s)"
  shows "strip (s @ [newline]) = s"
  using assms by (simp add: strip_snoc_space is_space_newline strip_id)

lemma clean_last: "clean v \<Longrightarrow> v \<noteq> [] \<Longrightarrow> \<not> is_space (last v) \<and> \<not> is_space (hd v)"
  using strip_ends [of v] by (simp add: clean_def)

lemma strip_header_text: "strip (header_text k) = ''[account '' @ k @ '']''"
proof -
  have "strip ((''[account '' @ k @ '']'') @ [newline]) = ''[account '' @ k @ '']''"
    by (rule strip_line) (simp_all add: is_space_def)
  then show ?thesis by (simp add: header_text_def)
qed

lemma is_header_header: "is_header (''[account '' @ k @ '']'')"
  by (simp add: is_header_def startswith_def endswith_def)

lemma header_name_header: "header_name (''[account '' @ k @ '']'') = k"
  by (simp add: header_name_def butlast_append)

lemma split_once_eq:
  assumes "CHR ''='' \<notin> set key"
  shows "split_once CHR ''='' (key @ CHR ''='' # v) = (key, v)"
proof -
  have 1: "takeWhile (\<lambda>c. c \<noteq> CHR ''='') (key @ CHR ''='' # v) = key"
    using assms by (subst takeWhile_append2) auto
  have 2: "dropWhile (\<lambda>c. c \<noteq> CHR ''='') (key @ CHR ''='' # v) = CHR ''='' # v"
    using assms by (subst dropWhile_append2) auto
  show ?thesis unfolding split_once_def 1 2 by simp
qed

lemma kv_of_text:
  assumes "key \<noteq> []" "strip key = key" "CHR ''='' \<notin> set key" "hd key \<noteq> CHR ''[''" "clean v"
  shows "kv_of (kv_text key v) = Some (key, v)"
proof -
  let ?line = "key @ CHR ''='' # v"
  have hd: "\<not> is_space (hd key)" using strip_ends [of key] assms(1,2) by simp
  have "\<not> is_space (last ?line)"
    using clean_last [OF assms(5)] by (cases "v = []") (simp_all add: is_space_def)
  then have "strip (?line @ [newline]) = ?line"
    using assms(1) hd by (intro strip_line) simp_all
  then have s: "strip (kv_text key v) = ?line" by (simp add: kv_text_def)
  have nh: "\<not> is_header ?line"
    using assms(1,4) by (cases key) (simp_all add: is_header_def startswith_def)
  have ne: "?line \<noteq> []" "CHR ''='' \<in> set ?line" by simp_all
  show ?thesis unfolding kv_of_def s Let_def split_once_eq [OF assms(3)]
    using nh ne assms(2,5) by (simp add: clean_def)
qed

lemma load_line_blank: "load_line st [newline] = Inr st"
proof -
  have "strip ([] @ [newline]) = strip []" by (rule strip_snoc_space) (rule is_space_newline)
  then show ?thesis by (simp add: load_line_def strip_Nil split: prod.splits)
qed

lemma not_header_kv: "kv_of raw = Some kv \<Longrightarrow> \<not> is_header (strip raw)"
  by (auto simp: kv_of_def Let_def split: if_splits)

lemma load_line_kv:
  "kv_of raw = Some (k, v) \<Longrightarrow> load_line (a, cur, cn) raw = Inr (a, dict_set cur k v, cn)"
  using not_header_kv [of raw "(k, v)"] by (simp add: load_line_body kv_line_def)

lemma strip_key: "strip ''email'' = ''email''" "strip ''password'' = ''password''"
  "strip ''imap_server'' = ''imap_server''" "strip ''imap_port'' = ''imap_port''"
  "strip ''smtp_server'' = ''smtp_server''" "strip ''smtp_port'' = ''smtp_port''"
  by (simp_all add: strip_def is_space_def)

lemma load_line_kv_text:
  assumes "key \<noteq> []" "strip key = key" "CHR ''='' \<notin> set key" "hd key \<noteq> CHR ''[''" "clean v"
  shows "load_line (a, cur, cn) (kv_text key v) = Inr (a, dict_set cur key v, cn)"
  by (rule load_line_kv) (rule kv_of_text [OF assms])

lemma load_line_header_text:
  "load_line st (header_text k) =
     (case commit st of Inl e \<Rightarrow> Inl e | Inr d \<Rightarrow> Inr (d, [(''name'', k)], Some k))"
  by (simp only: load_line_header strip_header_text is_header_header header_name_header)

lemma load_block:
  assumes "good_account k a"
  shows "load_lines st (block_lines a) =
     (case commit st of Inl e \<Rightarrow> Inl e | Inr d \<Rightarrow> Inr (d, to_dict a, Some k))"
proof -
  have g: "clean (email a)" "clean (password a)" "clean (imap_server a)" "clean (smtp_server a)"
    "name a = k"
    using assms by (simp_all add: good_account_def)
  have kv: "load_line (d, cur, cn) (kv_text ''email'' (email a)) = Inr (d, dict_set cur ''email'' (email a), cn)"
    "load_line (d, cur, cn) (kv_text ''password'' (password a)) = Inr (d, dict_set cur ''password'' (password a), cn)"
    "load_line (d, cur, cn) (kv_text ''imap_server'' (imap_server a)) = Inr (d, dict_set cur ''imap_server'' (imap_server a), cn)"
    "load_line (d, cur, cn) (kv_text ''imap_port'' (py_str (imap_port a))) = Inr (d, dict_set cur ''imap_port'' (py_str (imap_port a)), cn)"
    "load_line (d, cur, cn) (kv_text ''smtp_server'' (smtp_server a)) = Inr (d, dict_set cur ''smtp_server'' (smtp_server a), cn)"
    "load_line (d, cur, cn) (kv_text ''smtp_port'' (py_str (smtp_port a))) = Inr (d, dict_set cur ''smtp_port'' (py_str (smtp_port a)), cn)"
    for d cur cn
    by (rule load_line_kv_text; simp add: strip_key g clean_py_str)+
  show ?thesis
    by (cases "commit st")
      (simp_all add: block_lines_def to_dict_def g(5) load_line_header_text kv load_line_blank)
qed

lemma from_dict_to_dict: "from_dict (to_dict a) = Inr a"
  using py_str_clean [of "imap_port a"] py_str_clean [of "smtp_port a"]
  by (simp add: from_dict_def to_dict_def port_of_def dict_get_def py_int_py_str)

lemma line_shape_kv: "newline \<notin> set key \<Longrightarrow> newline \<notin> set v \<Longrightarrow>
  kv_text key v \<noteq> [] \<and> newline \<notin> set (butlast (kv_text key v)) \<and> last (kv_text key v) = newline"
  by (simp add: kv_text_def butlast_append newline_def)

lemma line_shape_header: "newline \<notin> set k \<Longrightarrow>
  header_text k \<noteq> [] \<and> newline \<notin> set (butlast (header_text k)) \<and> last (header_text k) = newline"
  by (simp add: header_text_def butlast_append newline_def)

lemma proper_terminated: "\<forall>l\<in>set ls. terminated l \<Longrightarrow> proper_lines ls"
  by (induction ls rule: proper_lines.induct) (auto simp: terminated_def)

lemma block_lines_terminated:
  assumes "good_account k a"
  shows "\<forall>l\<in>set (block_lines a). terminated l"
proof -
  have g: "newline \<notin> set (name a)" "newline \<notin> set (email a)" "newline \<notin> set (password a)"
    "newline \<notin> set (imap_server a)" "newline \<notin> set (smtp_server a)"
    using assms by (auto simp: good_account_def clean_def)
  have p: "newline \<notin> set (py_str n)" for n using py_str_clean [of n] by simp
  have k: "newline \<notin> set ''email''" "newline \<notin> set ''password''" "newline \<notin> set ''imap_server''"
    "newline \<notin> set ''imap_port''" "newline \<notin> set ''smtp_server''" "newline \<notin> set ''smtp_port''"
    by (simp_all add: newline_def)
  have "terminated [newline]" by (simp add: terminated_def)
  then show ?thesis
    unfolding block_lines_def to_dict_def terminated_def [symmetric]
    using line_shape_header [OF g(1)] line_shape_kv [OF k(1) g(2)] line_shape_kv [OF k(2) g(3)]
      line_shape_kv [OF k(3) g(4)] line_shape_kv [OF k(4) p] line_shape_kv [OF k(5) g(5)]
      line_shape_kv [OF k(6) p]
    by (simp add: terminated_def)
qed

lemma py_lines_save:
  assumes "\<forall>kv\<in>set accs. good_account (fst kv) (snd kv)"
  shows "py_lines (save_all_accounts accs) = blocks accs"
proof -
  have "\<forall>l\<in>set (blocks accs). terminated l"
  proof
    fix l assume "l \<in> set (blocks accs)"
    then obtain kv where "kv \<in> set accs" "l \<in> set (block_lines (snd kv))"
      by (auto simp: blocks_def)
    then show "terminated l" using assms block_lines_terminated [of "fst kv" "snd kv"] by blast
  qed
  then have "proper_lines (blocks accs)" by (rule proper_terminated)
  then show ?thesis unfolding save_all_accounts_def blocks_def [symmetric] by (rule py_lines_proper)
qed

lemma commit_last:
  assumes "good_account k a" "k \<notin> fst ` set ys"
  shows "commit (ys, to_dict a, Some k) = Inr (ys @ [(k, a)])"
proof -
  have n: "name a = k" "k \<noteq> []" using assms(1) by (simp_all add: good_account_def)
  have "to_dict a \<noteq> []" by (simp add: to_dict_def)
  then show ?thesis
    using n assms(2) by (simp add: commit_def from_dict_to_dict dict_set_new)
qed

lemma load_blocks:
  assumes "\<forall>kv\<in>set (ys @ [(k, a)]). good_account (fst kv) (snd kv)"
    "distinct (map fst (ys @ [(k, a)]))"
  shows "load_lines ([], [], None) (blocks (ys @ [(k, a)])) = Inr (ys, to_dict a, Some k)"
  using assms
proof (induction ys arbitrary: k a rule: rev_induct)
  case Nil
  then have "good_account k a" by simp
  from load_block [OF this, of "([], [], None)"] show ?case
    by (simp add: blocks_def commit_def)
next
  case (snoc y ys)
  obtain k' a' where y: "y = (k', a')" by (cases y)
  have gx: "good_account k a" and g': "good_account k' a'" using snoc.prems(1) y by simp_all
  have d: "k' \<notin> fst ` set ys" using snoc.prems(2) y by auto
  have ih: "load_lines ([], [], None) (blocks (ys @ [(k', a')])) = Inr (ys, to_dict a', Some k')"
    using snoc.prems by (intro snoc.IH) (simp_all add: y)
  have bl: "blocks ((ys @ [y]) @ [(k, a)]) = blocks (ys @ [(k', a')]) @ block_lines a"
    by (simp add: blocks_def y)
  show ?case
    unfolding bl load_lines_append ih
    using load_block [OF gx, of "(ys, to_dict a', Some k')"] commit_last [OF g' d]
    by (simp add: y)
qed

lemma load_save:
  assumes "\<forall>kv\<in>set accs. good_account (fst kv) (snd kv)" "distinct (map fst accs)"
  shows "load_all_accounts (Some (save_all_accounts accs)) = Inr accs"
proof (cases accs rule: rev_cases)
  case Nil
  then show ?thesis by (simp add: load_all_accounts_def save_all_accounts_def commit_def)
next
  case (snoc ys x)
  obtain k a where x: "x = (k, a)" by (cases x)
  have g: "good_account k a" using assms(1) snoc x by simp
  have d: "k \<notin> fst ` set ys" using assms(2) snoc x by auto
  have "load_lines ([], [], None) (blocks accs) = Inr (ys, to_dict a, Some k)"
    using load_blocks [of ys k a] assms snoc x by simp
  then have "load_all_accounts (Some (save_all_accounts accs)) = commit (ys, to_dict a, Some k)"
    by (simp add: load_all_accounts_def py_lines_save [OF assms(1)])
  then show ?thesis
    using commit_last [OF g d] snoc x by simp
qed

lemma clean_strip: "newline \<notin> set s \<Longrightarrow> clean (strip s)"
  using set_strip [of s] by (auto simp: clean_def strip_strip)

lemma set_split_once:
  "set (fst (split_once c s)) \<subseteq> set s" "set (snd (split_once c s)) \<subseteq> set s"
proof -
  show "set (fst (split_once c s)) \<subseteq> set s"
    by (auto simp: split_once_def dest: set_takeWhileD)
  show "set (snd (split_once c s)) \<subseteq> set s"
  proof
    fix x assume "x \<in> set (snd (split_once c s))"
    then have "x \<in> set (tl (dropWhile (\<lambda>x. x \<noteq> c) s))" by (simp add: split_once_def)
    then have "x \<in> set (dropWhile (\<lambda>x. x \<noteq> c) s)"
      by (cases "dropWhile (\<lambda>x. x \<noteq> c) s") simp_all
    then show "x \<in> set s" by (rule set_dropWhileD)
  qed
qed

lemma kv_of_clean:
  assumes "kv_of raw = Some (k, v)" "newline \<notin> set (strip raw)"
  shows "clean v"
proof -
  have v: "v = strip (snd (split_once CHR ''='' (strip raw)))"
    using assms(1) by (auto simp: kv_of_def Let_def split: if_splits)
  have "newline \<notin> set (snd (split_once CHR ''='' (strip raw)))"
    using set_split_once(2) [of "CHR ''=''" "strip raw"] assms(2) by auto
  then show ?thesis unfolding v by (rule clean_strip)
qed

lemma good_dict_set:
  assumes "good_accounts d" "good_account k a"
  shows "good_accounts (dict_set d k a)"
proof -
  have "\<forall>kv\<in>set (dict_set d k a). good_account (fst kv) (snd kv)"
    using set_dict_set [of d k a] assms by (auto simp: good_accounts_def)
  then show ?thesis using assms(1) by (simp add: good_accounts_def distinct_dict_set)
qed

lemma clean_dict_get:
  assumes "good_current cur cn" "k \<noteq> ''name''"
  shows "clean (dict_get cur k [])"
  using assms by (auto simp: good_current_def dict_get_def clean_Nil split: option.splits)

lemma from_dict_good:
  assumes "from_dict cur = Inr acc" "good_current cur (Some n)" "n \<noteq> []"
  shows "good_account n acc"
proof -
  have a: "name acc = dict_get cur ''name'' []" "email acc = dict_get cur ''email'' []"
    "password acc = dict_get cur ''password'' []" "imap_server acc = dict_get cur ''imap_server'' []"
    "smtp_server acc = dict_get cur ''smtp_server'' []"
    using assms(1) by (auto simp: from_dict_def split: sum.splits)
  have "name acc = n" "newline \<notin> set n"
    using assms(2) by (simp_all add: a good_current_def dict_get_def)
  then show ?thesis
    unfolding good_account_def a(2-)
    using assms(3) clean_dict_get [OF assms(2)] by simp
qed

lemma commit_good:
  assumes "commit (a, cur, cn) = Inr a'" "good_accounts a" "good_current cur cn"
  shows "good_accounts a'"
proof (cases cn)
  case None
  then show ?thesis using assms by (simp add: commit_def)
next
  case (Some n)
  show ?thesis
  proof (cases "n \<noteq> [] \<and> cur \<noteq> []")
    case True
    then obtain acc where acc: "from_dict cur = Inr acc" "a' = dict_set a n acc"
      using assms(1) Some by (auto simp: commit_def split: sum.splits)
    have "good_account n acc" using from_dict_good [OF acc(1)] assms(3) Some True by simp
    then show ?thesis using good_dict_set assms(2) acc(2) by simp
  next
    case False
    then have "a' = a" using assms(1) Some by (auto simp: commit_def)
    then show ?thesis using assms(2) by simp
  qed
qed

lemma set_butlast_drop: "set (butlast (drop n l)) \<subseteq> set l"
proof -
  have "set (butlast (drop n l)) \<subseteq> set (drop n l)" by (auto dest: in_set_butlastD)
  also have "\<dots> \<subseteq> set l" by (rule set_drop_subset)
  finally show ?thesis .
qed

lemma set_header_name: "set (header_name l) \<subseteq> set l"
  unfolding header_name_def by (rule set_butlast_drop)

lemma load_line_good:
  assumes "load_line (a, cur, cn) raw = Inr (a', cur', cn')" "good_accounts a"
    "good_current cur cn" "good_line raw"
  shows "good_accounts a' \<and> good_current cur' cn'"
proof (cases "is_header (strip raw)")
  case True
  then have c: "commit (a, cur, cn) = Inr a'" and cur': "cur' = [(''name'', header_name (strip raw))]"
    and cn': "cn' = Some (header_name (strip raw))"
    using assms(1) by (auto simp: load_line_header split: sum.splits)
  have "newline \<notin> set (header_name (strip raw))"
    using set_header_name [of "strip raw"] assms(4) by (auto simp: good_line_def)
  then have "good_current cur' cn'" by (simp add: cur' cn' good_current_def)
  then show ?thesis using commit_good [OF c assms(2,3)] by simp
next
  case False
  then have eq: "a' = a" "cur' = kv_line cur raw" "cn' = cn"
    using assms(1) by (simp_all add: load_line_body)
  have "good_current (kv_line cur raw) cn"
  proof (cases "kv_of raw")
    case None
    then show ?thesis using assms(3) by (simp add: kv_line_def)
  next
    case (Some kv)
    obtain k v where kv: "kv = (k, v)" by (cases kv)
    have "clean v" using kv_of_clean [of raw k v] Some kv assms(4) by (simp add: good_line_def)
    moreover have "k \<noteq> ''name''" using Some kv assms(4) by (simp add: good_line_def no_name_key_def)
    ultimately show ?thesis using assms(3) Some kv
      by (auto simp: kv_line_def good_current_def map_of_dict_set)
  qed
  then show ?thesis using eq assms(2) by simp
qed

lemma load_lines_good:
  "load_lines (a, cur, cn) ls = Inr (a', cur', cn') \<Longrightarrow> good_accounts a \<Longrightarrow>
   good_current cur cn \<Longrightarrow> \<forall>l\<in>set ls. good_line l \<Longrightarrow>
   good_accounts a' \<and> good_current cur' cn'"
proof (induction ls arbitrary: a cur cn)
  case Nil
  then show ?case by simp
next
  case (Cons l ls)
  from Cons.prems(1) obtain a1 cur1 cn1 where
    step: "load_line (a, cur, cn) l = Inr (a1, cur1, cn1)" and
    rest: "load_lines (a1, cur1, cn1) ls = Inr (a', cur', cn')"
    by (auto split: sum.splits)
  have "good_accounts a1 \<and> good_current cur1 cn1"
    using load_line_good [OF step Cons.prems(2,3)] Cons.prems(4) by simp
  then show ?case using Cons.IH [OF rest] Cons.prems(4) by simp
qed

lemma load_good:
  assumes "load_all_accounts (Some content) = Inr accs"
    "\<forall>l\<in>set (py_lines content). no_name_key l"
  shows "good_accounts accs"
proof -
  from assms(1) obtain a cur cn where
    l: "load_lines ([], [], None) (py_lines content) = Inr (a, cur, cn)" and
    c: "commit (a, cur, cn) = Inr accs"
    by (auto simp: load_all_accounts_def split: sum.splits)
  have "\<forall>l\<in>set (py_lines content). good_line l"
    using assms(2) py_lines_shape strip_no_newline by (auto simp: good_line_def)
  moreover have "good_accounts []" "good_current [] None"
    by (simp_all add: good_accounts_def good_current_def)
  ultimately have "good_accounts a \<and> good_current cur cn"
    using load_lines_good [OF l] by blast
  then show ?thesis using commit_good [OF c] by simp
qed


lemma load_distinct:
  assumes "load_all_accounts (Some content) = Inr accs"
  shows "distinct (map fst accs)"
proof -
  have c: "commit (a, cur, cn) = Inr a' \<Longrightarrow> distinct (map fst a) \<Longrightarrow> distinct (map fst a')"
    for a cur cn a'
    by (auto simp: commit_def distinct_dict_set split: option.splits if_splits sum.splits)
  have s: "load_line (a, cur, cn) l = Inr (a', cur', cn') \<Longrightarrow> distinct (map fst a)
      \<Longrightarrow> distinct (map fst a')" for a cur cn l a' cur' cn'
    using c [of a cur cn a']
    by (cases "is_header (strip l)") (auto simp: load_line_header load_line_body split: sum.splits)
  have ls: "load_lines (a, cur, cn) xs = Inr (a', cur', cn') \<Longrightarrow> distinct (map fst a)
      \<Longrightarrow> distinct (map fst a')" for a cur cn xs a' cur' cn'
  proof (induction xs arbitrary: a cur cn)
    case Nil
    then show ?case by simp
  next
    case (Cons x xs)
    from Cons.prems(1) obtain a1 cur1 cn1 where
      1: "load_line (a, cur, cn) x = Inr (a1, cur1, cn1)" and
      2: "load_lines (a1, cur1, cn1) xs = Inr (a', cur', cn')"
      by (auto split: sum.splits)
    from Cons.IH [OF 2] s [OF 1 Cons.prems(2)] show ?case by simp
  qed
  from assms obtain a cur cn where
    "load_lines ([], [], None) (py_lines content) = Inr (a, cur, cn)"
    "commit (a, cur, cn) = Inr accs"
    by (auto simp: load_all_accounts_def split: sum.splits)
  then show ?thesis using ls [of "[]" "[]" None] c by fastforce
qed

section \<open>Fetching: lemmas\<close>

lemma fetch_loop_char:
  "\<exists>k r. k \<le> length xs \<and> fetch_loop lib srv xs msgs evs =
      (r, msgs @ List.map_filter (fetched_message lib srv) (take k xs),
       evs @ map Imap_fetch (take k xs))
    \<and> (r = None \<longrightarrow> k = length xs)"
proof (induction xs arbitrary: msgs evs)
  case Nil
  then show ?case by (simp add: List.map_filter_simps)
next
  case (Cons i xs)
  have stop: ?case if "fetch_loop lib srv (i # xs) msgs evs = (Some e, msgs, evs @ [Imap_fetch i])"
      "fetched_message lib srv i = None" for e
    using that by (intro exI [of _ 1] exI [of _ "Some e"]) (simp add: List.map_filter_simps)
  have skip: ?case if f: "fetch_loop lib srv (i # xs) msgs evs = fetch_loop lib srv xs msgs (evs @ [Imap_fetch i])"
      and n: "fetched_message lib srv i = None"
  proof -
    from Cons.IH [of msgs "evs @ [Imap_fetch i]"] obtain k r where
      k: "k \<le> length xs" "fetch_loop lib srv xs msgs (evs @ [Imap_fetch i]) =
        (r, msgs @ List.map_filter (fetched_message lib srv) (take k xs),
         (evs @ [Imap_fetch i]) @ map Imap_fetch (take k xs))"
        "r = None \<longrightarrow> k = length xs"
      by blast
    show ?thesis
      unfolding f k(2) using k(1,3) n
      by (intro exI [of _ "Suc k"] exI [of _ r]) (simp add: List.map_filter_simps)
  qed
  have take: ?case if f: "fetch_loop lib srv (i # xs) msgs evs = fetch_loop lib srv xs (msgs @ [m]) (evs @ [Imap_fetch i])"
      and n: "fetched_message lib srv i = Some m" for m
  proof -
    from Cons.IH [of "msgs @ [m]" "evs @ [Imap_fetch i]"] obtain k r where
      k: "k \<le> length xs" "fetch_loop lib srv xs (msgs @ [m]) (evs @ [Imap_fetch i]) =
        (r, (msgs @ [m]) @ List.map_filter (fetched_message lib srv) (take k xs),
         (evs @ [Imap_fetch i]) @ map Imap_fetch (take k xs))"
        "r = None \<longrightarrow> k = length xs"
      by blast
    show ?thesis
      unfolding f k(2) using k(1,3) n
      by (intro exI [of _ "Suc k"] exI [of _ r]) (simp add: List.map_filter_simps)
  qed
  show ?case
  proof (cases "imap_fetch srv i")
    case (Raises e)
    then show ?thesis by (intro stop [of e]) (simp_all add: fetched_message_def)
  next
    case (Returns r)
    obtain status msg_data where r: "r = (status, msg_data)" by (cases r)
    show ?thesis
    proof (cases msg_data)
      case Nil
      then show ?thesis using Returns r by (intro skip) (simp_all add: fetched_message_def)
    next
      case (Cons item items)
      show ?thesis
      proof (cases "status \<noteq> ''OK'' \<or> item = Item_none")
        case True
        then show ?thesis using Returns r Cons
          by (intro skip) (auto simp: fetched_message_def split: fetch_item.splits)
      next
        case False
        show ?thesis
        proof (cases item)
          case Item_none
          then show ?thesis using False by simp
        next
          case (Item_pair line raw)
          then show ?thesis using Returns r Cons False
            by (intro take [of "build_message lib i (message_from_bytes lib raw)"])
              (simp_all add: fetched_message_def parse_item_def)
        next
          case (Item_bytes b)
          then show ?thesis using Returns r Cons False
            by (intro stop [of "if length b < 2 then IndexError else AttributeError"])
              (simp_all add: fetched_message_def parse_item_def)
        qed
      qed
    qed
  qed
qed

lemma fetched_message_id: "fetched_message lib srv i = Some m \<Longrightarrow> msg_id m = i"
  by (auto simp: fetched_message_def build_message_def
      split: reply.splits prod.splits list.splits fetch_item.splits if_splits)

lemma fetched_message_has: "(fetched_message lib srv i \<noteq> None) = has_message (imap_fetch srv i)"
  by (auto simp: fetched_message_def has_message_def
      split: reply.splits prod.splits list.splits fetch_item.splits if_splits)

lemma skipped_no_message: "skipped r \<Longrightarrow> \<not> has_message r"
  by (auto simp: skipped_def has_message_def
      split: reply.splits prod.splits list.splits fetch_item.splits if_splits)

lemma map_filter_ids:
  "map msg_id (List.map_filter (fetched_message lib srv) xs) =
     filter (\<lambda>i. has_message (imap_fetch srv i)) xs"
proof (induction xs)
  case Nil
  then show ?case by (simp add: List.map_filter_simps)
next
  case (Cons i xs)
  show ?case
  proof (cases "fetched_message lib srv i")
    case None
    then show ?thesis using Cons fetched_message_has [of lib srv i]
      by (simp add: List.map_filter_simps)
  next
    case (Some m)
    then show ?thesis using Cons fetched_message_has [of lib srv i] fetched_message_id [OF Some]
      by (simp add: List.map_filter_simps)
  qed
qed

lemma fetched_ids_append: "fetched_ids (xs @ ys) = fetched_ids xs @ fetched_ids ys"
  by (simp add: fetched_ids_def)

lemma fetched_ids_fetches: "fetched_ids (map Imap_fetch xs) = xs"
  by (induction xs) (simp_all add: fetched_ids_def)

lemma fetched_ids_start: "fetched_ids (session_start acc) = []"
  by (simp add: fetched_ids_def session_start_def)

lemma fetched_ids_end: "fetched_ids [Imap_close, Imap_logout] = []"
  by (simp add: fetched_ids_def)

lemma length_last_20: "length (last_20 ids) = min 20 (length ids)"
  by (auto simp: last_20_def)

lemma on_refresh_session:
  assumes "active_account st = Some a" "search_gives srv ids"
  shows "on_refresh lib srv st =
     (if ids = [] then
        (st\<lparr>messages := []\<rparr>, session_start (objects st a) @ [Imap_close, Imap_logout], Inbox_is_empty)
      else
        (case fetch_loop lib srv (rev (last_20 ids)) [] (session_start (objects st a)) of
           (Some e, msgs, evs) \<Rightarrow> (st\<lparr>messages := msgs\<rparr>, evs, refresh_handler e)
         | (None, msgs, evs) \<Rightarrow>
             (st\<lparr>messages := msgs\<rparr>, evs @ [Imap_close, Imap_logout], Emails_loaded)))"
proof -
  from assms(2) obtain b rest where
    s: "imap_connect srv = None" "imap_login srv = None" "imap_select srv = Returns ''OK''"
      "imap_search srv = Returns (''OK'', Some b # rest)" "split_whitespace b = ids"
    by (auto simp: search_gives_def split: reply.splits prod.splits list.splits option.splits)
  show ?thesis
    by (auto simp: on_refresh_def refresh_session_def assms(1) s search_ids_def Let_def
        session_start_def split: prod.splits option.splits)
qed

lemma fetch_loop_all:
  assumes "\<forall>i\<in>set xs. skipped (imap_fetch srv i) \<or> has_message (imap_fetch srv i)"
  shows "fetch_loop lib srv xs msgs evs =
     (None, msgs @ List.map_filter (fetched_message lib srv) xs, evs @ map Imap_fetch xs)"
  using assms
proof (induction xs arbitrary: msgs evs)
  case Nil
  then show ?case by (simp add: List.map_filter_simps)
next
  case (Cons i xs)
  from Cons.prems have "skipped (imap_fetch srv i) \<or> has_message (imap_fetch srv i)" by simp
  then show ?case
  proof
    assume sk: "skipped (imap_fetch srv i)"
    then have "fetched_message lib srv i = None"
      using skipped_no_message fetched_message_has [of lib srv i] by auto
    moreover have "fetch_loop lib srv (i # xs) msgs evs = fetch_loop lib srv xs msgs (evs @ [Imap_fetch i])"
      using sk by (auto simp: skipped_def split: reply.splits prod.splits list.splits)
    ultimately show ?thesis using Cons by (simp add: List.map_filter_simps)
  next
    assume "has_message (imap_fetch srv i)"
    then obtain line raw items where
      r: "imap_fetch srv i = Returns (''OK'', Item_pair line raw # items)"
      by (auto simp: has_message_def split: reply.splits prod.splits list.splits fetch_item.splits)
    then have "fetched_message lib srv i = Some (build_message lib i (message_from_bytes lib raw))"
      by (simp add: fetched_message_def)
    moreover have "fetch_loop lib srv (i # xs) msgs evs =
      fetch_loop lib srv xs (msgs @ [build_message lib i (message_from_bytes lib raw)]) (evs @ [Imap_fetch i])"
      using r by (simp add: parse_item_def)
    ultimately show ?thesis using Cons by (simp add: List.map_filter_simps)
  qed
qed

lemma fetch_loop_skips:
  assumes "skipped (imap_fetch srv i)"
  shows "fetch_loop lib srv (i # ids) msgs evs = fetch_loop lib srv ids msgs (evs @ [Imap_fetch i])"
  using assms by (auto simp: skipped_def split: reply.splits prod.splits list.splits)

lemma fallback_decodes_container:
  assumes "find (\<lambda>part. get_content_type part = ''text/plain'') (walk (Multipart hs ct cs ps)) = None"
  shows "extract_plain_text_body lib (Multipart hs ct cs ps) = Some []"
  using assms by (simp add: extract_plain_text_body_def decode_part_def bytes_decode_def)

section \<open>Sending: lemmas\<close>

lemma split_at_pieces: "p \<in> set (split_at P s) \<Longrightarrow> c \<in> set p \<Longrightarrow> \<not> P c"
proof (induction s arbitrary: p)
  case Nil
  then show ?case by simp
next
  case (Cons x xs)
  show ?case
  proof (cases "P x")
    case True
    then show ?thesis using Cons by auto
  next
    case False
    show ?thesis
    proof (cases "split_at P xs")
      case Nil
      then show ?thesis using Cons False by auto
    next
      case (Cons q qs)
      then have "p = x # q \<or> p \<in> set qs" using Cons.prems(1) False by simp
      then show ?thesis using Cons.IH [of q] Cons.IH [of p] Cons Cons.prems(2) False by auto
    qed
  qed
qed

lemma recipients_filter_map:
  "recipients_of t = filter (\<lambda>r. r \<noteq> []) (map strip (py_split CHR '','' t))"
  by (simp add: recipients_of_def filter_map comp_def)

lemma recipients_clean:
  assumes "r \<in> set (recipients_of t)"
  shows "r \<noteq> [] \<and> strip r = r \<and> CHR '','' \<notin> set r"
proof -
  from assms obtain p where p: "p \<in> set (py_split CHR '','' t)" "strip p \<noteq> []" "r = strip p"
    by (auto simp: recipients_of_def)
  have "CHR '','' \<notin> set p" using split_at_pieces [of p "\<lambda>c. c = CHR '',''" t] p(1)
    by (auto simp: py_split_def)
  then have "CHR '','' \<notin> set r" using set_strip [of p] p(3) by auto
  then show ?thesis using p by (simp add: strip_strip)
qed

lemma send_session_recipients:
  "Smtp_sendmail sender rc text \<in> set (fst (send_session srv acc recipients t)) \<Longrightarrow> rc = recipients"
  by (auto simp: send_session_def Let_def split: option.splits if_splits)

lemma send_session_ok:
  assumes "smtp_connect srv = None" "smtp_login srv = None" "smtp_sendmail srv = None"
  shows "send_session srv acc recipients t =
     ((if smtp_port acc = 465 then [SMTP_SSL (smtp_server acc) (smtp_port acc)]
       else [SMTP (smtp_server acc) (smtp_port acc), Smtp_starttls])
      @ [Smtp_login (email acc) (password acc), Smtp_sendmail (email acc) recipients t, Smtp_quit],
      Email_sent)"
  using assms by (simp add: send_session_def)

section \<open>The account manager: lemmas\<close>






lemma map_of_dict_remove: "map_of (dict_remove d k) = (map_of d)(k := None)"
  by (induction d) (auto simp: dict_remove_def fun_eq_iff)

lemma name_of_listed:
  assumes "list_all (\<lambda>kv. name (objects st (snd kv)) = fst kv) (accounts st)"
    "(k, a) \<in> set (accounts st)"
  shows "name (objects st a) = k"
  using assms by (auto simp: list_all_iff)

lemma active_is_selected:
  assumes "frame_ok st" "map_of (accounts st) selected = Some b" "active_account st = Some a"
  shows "(name (objects st a) = selected) = (a = b)"
proof
  assume n: "name (objects st a) = selected"
  have la: "list_all (\<lambda>kv. name (objects st (snd kv)) = fst kv) (accounts st)"
    using assms(1) by (simp add: frame_ok_def)
  from assms(1,3) obtain k where k: "(k, a) \<in> set (accounts st)"
    by (auto simp: frame_ok_def)
  with la have "name (objects st a) = k" by (rule name_of_listed)
  then have "(selected, a) \<in> set (accounts st)" using k n by simp
  then have "map_of (accounts st) selected = Some a" using assms(1) by (simp add: frame_ok_def)
  then show "a = b" using assms(2) by simp
next
  assume "a = b"
  then have "(selected, a) \<in> set (accounts st)" using assms(2) by (simp add: map_of_SomeD)
  moreover have "list_all (\<lambda>kv. name (objects st (snd kv)) = fst kv) (accounts st)"
    using assms(1) by (simp add: frame_ok_def)
  ultimately show "name (objects st a) = selected" by (rule name_of_listed [rotated])
qed

lemma on_delete_selected:
  assumes "frame_ok st" "map_of (accounts st) selected = Some b"
  shows "\<exists>st'. on_delete_account st (Some selected) = (st', Deleted)
     \<and> map_of (accounts st') = (map_of (accounts st))(selected := None)
     \<and> objects st' = objects st
     \<and> accounts_file st' = Some (save_all_accounts (account_values st'))
     \<and> (active_account st = Some b \<longrightarrow> active_account st' = None \<and> messages st' = [])
     \<and> (active_account st \<noteq> Some b \<longrightarrow>
          active_account st' = active_account st \<and> messages st' = messages st)"
proof -
  have ne: "accounts st \<noteq> []" using assms(2) by auto
  have h: "dict_has (accounts st) selected" using assms(2) by (simp add: dict_has_def)
  show ?thesis
  proof (cases "active_account st")
    case None
    then show ?thesis using ne h
      by (simp add: on_delete_account_def save_frame_def account_values_def map_of_dict_remove)
  next
    case (Some a)
    have eq: "(name (objects st a) = selected) = (a = b)"
      using assms Some by (rule active_is_selected)
    show ?thesis
    proof (cases "a = b")
      case True
      then show ?thesis using ne h Some eq
        by (simp add: on_delete_account_def save_frame_def account_values_def map_of_dict_remove)
    next
      case False
      then show ?thesis using ne h Some eq
        by (simp add: on_delete_account_def save_frame_def account_values_def map_of_dict_remove)
    qed
  qed
qed

lemma delete_keeps_frame_ok:
  assumes "frame_ok st" "on_delete_account st choice = (st', outcome)"
  shows "frame_ok st'"
proof (cases "accounts st = [] \<or> choice = None \<or> \<not> dict_has (accounts st) (the choice)")
  case True
  then have "st' = st" using assms(2)
    by (auto simp: on_delete_account_def split: option.splits if_splits)
  then show ?thesis using assms(1) by simp
next
  case False
  then obtain selected b where c: "choice = Some selected" "map_of (accounts st) selected = Some b"
    by (auto simp: dict_has_def)
  from on_delete_selected [OF assms(1) c(2)] assms(2) c(1) have
    st': "objects st' = objects st"
      "active_account st = Some b \<longrightarrow> active_account st' = None"
      "active_account st \<noteq> Some b \<longrightarrow> active_account st' = active_account st"
    by auto
  have acc: "accounts st' = dict_remove (accounts st) selected"
    using assms(2) c False
    by (auto simp: on_delete_account_def save_frame_def Let_def split: option.splits if_splits)
  have 1: "distinct (map fst (accounts st'))"
    using assms(1) unfolding acc dict_remove_def frame_ok_def by (simp add: distinct_map_filter)
  have 2: "list_all (\<lambda>kv. name (objects st' (snd kv)) = fst kv) (accounts st')"
    using assms(1) unfolding acc dict_remove_def frame_ok_def st'(1) by (auto simp: list_all_iff)
  have 3: "case active_account st' of None \<Rightarrow> True | Some a \<Rightarrow> a \<in> set (map snd (accounts st'))"
  proof (cases "active_account st = Some b")
    case True
    then show ?thesis using st'(2) by simp
  next
    case False
    show ?thesis
    proof (cases "active_account st")
      case None
      then show ?thesis using st'(3) False by simp
    next
      case (Some a)
      then have ab: "a \<noteq> b" using False by simp
      have "name (objects st a) \<noteq> selected"
        using active_is_selected [OF assms(1) c(2) Some] ab by simp
      moreover obtain k where k: "(k, a) \<in> set (accounts st)"
        using assms(1) Some by (auto simp: frame_ok_def)
      moreover have "name (objects st a) = k"
        using assms(1) k by (auto simp: frame_ok_def list_all_iff)
      ultimately have "(k, a) \<in> set (accounts st')"
        unfolding acc dict_remove_def by simp
      then show ?thesis using st'(3) False Some by force
    qed
  qed
  from 1 2 3 show ?thesis by (simp add: frame_ok_def)
qed

lemma refresh_handler_error:
  "refresh_handler e \<noteq> Inbox_is_empty" "refresh_handler e \<noteq> Emails_loaded"
  by (simp_all add: refresh_handler_def)

lemma fetch_loop_events:
  assumes "fetch_loop lib srv xs msgs evs = (r, msgs', evs')"
  shows "Imap_logout \<in> set evs' \<longleftrightarrow> Imap_logout \<in> set evs"
proof -
  obtain k r0 where "fetch_loop lib srv xs msgs evs =
      (r0, msgs @ List.map_filter (fetched_message lib srv) (take k xs), evs @ map Imap_fetch (take k xs))"
    using fetch_loop_char [of xs lib srv msgs evs] by blast
  with assms have "evs' = evs @ map Imap_fetch (take k xs)" by simp
  then show ?thesis by auto
qed

lemma refresh_session_logout:
  assumes "refresh_session lib srv acc msgs evs0 = (msgs', evs, outcome)" "Imap_logout \<notin> set evs0"
  shows "(Imap_logout \<in> set evs) = (outcome = Inbox_is_empty \<or> outcome = Emails_loaded)"
proof (cases "imap_login srv")
  case (Some e)
  then show ?thesis using assms by (auto simp: refresh_session_def Let_def refresh_handler_error)
next
  case None
  note login = None
  show ?thesis
  proof (cases "imap_select srv = Returns ''OK''")
    case False
    then show ?thesis using assms login
      by (auto simp: refresh_session_def Let_def refresh_handler_error split: reply.splits if_splits)
  next
    case True
    note sel = True
    show ?thesis
    proof (cases "\<exists>ids data. imap_search srv = Returns (''OK'', data) \<and> search_ids data = Inr ids")
      case False
      then show ?thesis using assms login sel
        by (auto simp: refresh_session_def Let_def refresh_handler_error
            split: reply.splits if_splits prod.splits sum.splits)
    next
      case True
      then obtain ids data where s: "imap_search srv = Returns (''OK'', data)" "search_ids data = Inr ids"
        by blast
      show ?thesis
      proof (cases "ids = []")
        case True
        then show ?thesis using assms login sel s
          by (auto simp: refresh_session_def Let_def)
      next
        case False
        obtain r m ev where f: "fetch_loop lib srv (rev (last_20 ids)) []
            (evs0 @ [Imap_login (email acc) (password acc), Imap_select ''INBOX'', Imap_search]) = (r, m, ev)"
          by (metis prod_cases3)
        have "Imap_logout \<notin> set ev" using fetch_loop_events [OF f] assms(2) by simp
        then show ?thesis using assms login sel s False f
          by (cases r) (auto simp: refresh_session_def Let_def refresh_handler_error)
      qed
    qed
  qed
qed

lemma refresh_logout_iff:
  assumes "on_refresh lib srv st = (st', evs, outcome)"
  shows "(Imap_logout \<in> set evs) = (outcome = Inbox_is_empty \<or> outcome = Emails_loaded)"
proof (cases "active_account st")
  case None
  then show ?thesis using assms by (auto simp: on_refresh_def)
next
  case (Some a)
  show ?thesis
  proof (cases "imap_connect srv")
    case (Some e)
    then show ?thesis using assms \<open>active_account st = Some a\<close>
      by (auto simp: on_refresh_def Let_def refresh_handler_error split: if_splits)
  next
    case None
    let ?acc = "objects st a"
    let ?evs0 = "if imap_port ?acc = 993 then [IMAP4_SSL (imap_server ?acc) (imap_port ?acc)]
        else [IMAP4 (imap_server ?acc) (imap_port ?acc)] @ [Imap_starttls]"
    obtain m ev oc where r: "refresh_session lib srv ?acc (messages st) ?evs0 = (m, ev, oc)"
      by (metis prod_cases3)
    have "Imap_logout \<notin> set ?evs0" by simp
    from refresh_session_logout [OF r this] show ?thesis
      using assms None \<open>active_account st = Some a\<close> r
      by (auto simp: on_refresh_def Let_def split: if_splits)
  qed
qed

lemma walk_not_Nil: "walk msg \<noteq> []"
  by (cases msg) simp_all

lemma extract_returns_text: "extract_plain_text_body lib msg \<noteq> None"
  using walk_not_Nil [of msg]
  by (auto simp: extract_plain_text_body_def Let_def split: option.splits list.splits)

lemma extract_prefers_plain:
  assumes "is_multipart msg"
    "find (\<lambda>part. get_content_type part = ''text/plain'') (walk msg) = Some part"
  shows "extract_plain_text_body lib msg =
     (case decode_part lib part of None \<Rightarrow> Some placeholder | Some t \<Rightarrow> Some t)"
  using assms by (simp add: extract_plain_text_body_def)



lemma init_frame_ok:
  assumes "init_frame (Some content) = Inr st" "list_all no_name_key (py_lines content)"
  shows "frame_ok st \<and> storable st"
proof -
  from assms(1) obtain loaded where
    l: "load_all_accounts (Some content) = Inr loaded" and
    st: "st = \<lparr> objects = (\<lambda>a. case drop a loaded of [] \<Rightarrow> new_account | kv # kvs \<Rightarrow> snd kv),
                 accounts = zip (map fst loaded) [0 ..< length loaded],
                 active_account = (case map fst loaded of
                                     [] \<Rightarrow> None
                                   | k # ks \<Rightarrow> map_of (zip (map fst loaded) [0 ..< length loaded]) (least k ks)),
                 messages = [],
                 accounts_file = Some content \<rparr>"
    by (auto simp: init_frame_def Let_def split: sum.splits)
  from assms(2) have "\<forall>l\<in>set (py_lines content). no_name_key l" by (simp add: list_all_iff)
  with l have g: "good_accounts loaded" by (rule load_good)
  have acc: "accounts st = zip (map fst loaded) [0 ..< length loaded]" by (simp add: st)
  have obj: "objects st i = snd (loaded ! i)" if "i < length loaded" for i
    using that by (simp add: st Cons_nth_drop_Suc [symmetric])
  have keys: "map fst (accounts st) = map fst loaded" by (simp add: acc)
  have 1: "distinct (map fst (accounts st))" using g by (simp add: keys good_accounts_def)
  have 2: "good_account (fst kv) (objects st (snd kv))" if "kv \<in> set (accounts st)" for kv
  proof -
    obtain k i where kv: "kv = (k, i)" by (cases kv)
    from that obtain j where j: "map fst loaded ! j = k" "[0 ..< length loaded] ! j = i"
      "j < length loaded"
      unfolding acc kv by (auto simp: in_set_zip)
    then have "i = j" by simp
    then have "k = fst (loaded ! i)" "i < length loaded" using j by simp_all
    then show ?thesis using g obj [of i] by (simp add: kv good_accounts_def)
  qed
  have 3: "case active_account st of None \<Rightarrow> True | Some a \<Rightarrow> a \<in> set (map snd (accounts st))"
  proof (cases "active_account st")
    case None
    then show ?thesis by simp
  next
    case (Some a)
    then obtain k where "map_of (accounts st) k = Some a"
      by (auto simp: st split: list.splits)
    then have "(k, a) \<in> set (accounts st)" by (rule map_of_SomeD)
    then show ?thesis using Some by force
  qed
  have "list_all (\<lambda>kv. name (objects st (snd kv)) = fst kv) (accounts st)"
    using 2 by (auto simp: list_all_iff good_account_def)
  moreover have "storable st" using 2 by (simp add: storable_def list_all_iff)
  ultimately show ?thesis using 1 3 by (simp add: frame_ok_def)
qed

lemma delete_keeps_storable:
  assumes "storable st" "on_delete_account st choice = (st', outcome)"
  shows "storable st'"
proof -
  have "objects st' = objects st \<and> set (accounts st') \<subseteq> set (accounts st)"
    using assms(2)
    by (auto simp: on_delete_account_def save_frame_def dict_remove_def Let_def
        split: option.splits if_splits)
  then show ?thesis using assms(1) by (auto simp: storable_def list_all_iff)
qed

section \<open>What the hypotheses of the theorems exclude\<close>

text \<open>
  A \<open>name\<close> key inside a block overrides the name of the account but not its key, and
  \<open>save_all_accounts\<close> writes the name: saving and loading again merges the two accounts
  of \<open>store_name_key\<close> into one.
\<close>

lemma name_key_breaks_round_trip:
  "map (\<lambda>kv. (fst kv, name (snd kv))) (projr (load_all_accounts (Some store_name_key)))
     = [(''a'', ''b''), (''b'', ''b'')]
   \<and> map (\<lambda>kv. (fst kv, name (snd kv)))
        (projr (load_all_accounts
           (Some (save_all_accounts (projr (load_all_accounts (Some store_name_key)))))))
     = [(''b'', ''b'')]"
  by code_simp

text \<open>
  The settings dialog writes every field into the account before the name is checked:
  when the rename is rejected, another field changed in the same dialog keeps its new
  value, and only the name is put back.
\<close>

lemma rejected_rename_keeps_other_edits:
  "snd (on_edit_active_account example_frame
          [Press_save ((prefill work_account)\<lparr>txt_name := ''home'', txt_email := ''new@example.org''\<rparr>)])
     = Name_in_use
   \<and> name (objects (fst (on_edit_active_account example_frame
          [Press_save ((prefill work_account)\<lparr>txt_name := ''home'', txt_email := ''new@example.org''\<rparr>)])) 0)
     = ''work''
   \<and> email (objects (fst (on_edit_active_account example_frame
          [Press_save ((prefill work_account)\<lparr>txt_name := ''home'', txt_email := ''new@example.org''\<rparr>)])) 0)
     = ''new@example.org''"
  by code_simp

section \<open>The claims about the account store\<close>

lemma last_blockI:
  assumes "lines = pre @ h # body @ rest" "is_header (strip h)" "header_name (strip h) \<noteq> []"
    "list_all (\<lambda>l. \<not> is_header (strip l)) body"
    "case rest of [] \<Rightarrow> True | r # rs \<Rightarrow> is_header (strip r)"
    "list_all (\<lambda>l. \<not> is_header (strip l) \<or> header_name (strip l) \<noteq> header_name (strip h)) rest"
  shows "last_block lines h body"
  unfolding last_block_def
  using assms by (intro exI [of _ pre] exI [of _ rest]) (auto simp: list_all_iff split: list.splits)

text \<open>
  C1, as the claim states it, fails: a port value that is not an integer literal makes
  \<open>int\<close> raise \<open>ValueError\<close>, which nothing in \<open>load_all_accounts\<close> catches, so the
  whole load fails.
\<close>

theorem malformed_port_fails_load:
  "load_all_accounts (Some store_bad_port) = Inl ValueError"
  by code_simp

text \<open>
  C1, amended: when every \<open>imap_port\<close> and \<open>smtp_port\<close> value of the store file is empty
  or an integer literal, \<open>load_all_accounts\<close> returns a mapping; and an account whose
  block has no \<open>imap_port\<close> (\<open>smtp_port\<close>) line, or only such lines with an empty value,
  is loaded with \<open>imap_port = 993\<close> (\<open>smtp_port = 587\<close>). The block of an account is the
  last one with its name.
\<close>

theorem port_defaults:
  assumes "list_all port_line_ok (py_lines content)"
  shows "\<exists>accs. load_all_accounts (Some content) = Inr accs
     \<and> (\<forall>h body. last_block (py_lines content) h body \<longrightarrow>
          (\<exists>cfg. map_of accs (header_name (strip h)) = Some cfg
             \<and> (port_unset ''imap_port'' body \<longrightarrow> imap_port cfg = 993)
             \<and> (port_unset ''smtp_port'' body \<longrightarrow> smtp_port cfg = 587)))"
proof -
  from assms have ok: "\<forall>l\<in>set (py_lines content). port_line_ok l" by (simp add: list_all_iff)
  from load_ok [OF ok] obtain accs where
    acc: "load_all_accounts (Some content) = Inr accs" by blast
  have "\<exists>cfg. map_of accs (header_name (strip h)) = Some cfg
             \<and> (port_unset ''imap_port'' body \<longrightarrow> imap_port cfg = 993)
             \<and> (port_unset ''smtp_port'' body \<longrightarrow> smtp_port cfg = 587)"
    if lb: "last_block (py_lines content) h body" for h body
  proof -
    let ?n = "header_name (strip h)"
    let ?cur = "foldl kv_line [(''name'', ?n)] body"
    from lb obtain pre rest where
      "py_lines content = pre @ h # body @ rest" "is_header (strip h)" "?n \<noteq> []"
      "\<forall>l\<in>set body. \<not> is_header (strip l)" "rest \<noteq> [] \<longrightarrow> is_header (strip (hd rest))"
      "\<forall>l\<in>set rest. is_header (strip l) \<longrightarrow> header_name (strip l) \<noteq> ?n"
      unfolding last_block_def by blast
    from last_block_lookup [OF this(1,2) refl this(3,4,5,6) acc] obtain cfg where
      cfg: "from_dict ?cur = Inr cfg" "map_of accs ?n = Some cfg" by blast
    have "imap_port cfg = 993" if "port_unset ''imap_port'' body"
      using port_unset_lookup [OF that, of "[(''name'', ?n)]"] from_dict_ports(1) [OF cfg(1)]
        port_of_unset [of ?cur "''imap_port''" "''993''" 993] py_int_993 by simp
    moreover have "smtp_port cfg = 587" if "port_unset ''smtp_port'' body"
      using port_unset_lookup [OF that, of "[(''name'', ?n)]"] from_dict_ports(2) [OF cfg(1)]
        port_of_unset [of ?cur "''smtp_port''" "''587''" 587] py_int_587 by simp
    ultimately show ?thesis using cfg(2) by blast
  qed
  with acc show ?thesis by blast
qed

theorem port_defaults_witness:
  "list_all port_line_ok (py_lines store_default_ports)
   \<and> last_block (py_lines store_default_ports) (''[account home]'' @ [newline])
        [''email=a@b.org'' @ [newline], ''imap_port='' @ [newline],
         ''smtp_server=smtp.b.org'' @ [newline]]
   \<and> (\<exists>accs cfg. load_all_accounts (Some store_default_ports) = Inr accs
        \<and> map_of accs ''home'' = Some cfg \<and> imap_port cfg = 993 \<and> smtp_port cfg = 587)"
proof -
  let ?h = "''[account home]'' @ [newline]"
  let ?body = "[''email=a@b.org'' @ [newline], ''imap_port='' @ [newline],
         ''smtp_server=smtp.b.org'' @ [newline]]"
  have ok: "list_all port_line_ok (py_lines store_default_ports)" by code_simp
  have lines: "py_lines store_default_ports = [] @ ?h # ?body @ []" by code_simp
  have lb: "last_block (py_lines store_default_ports) ?h ?body"
    by (rule last_blockI [OF lines]) (code_simp+)
  have n: "header_name (strip ?h) = ''home''" by code_simp
  have u: "port_unset ''imap_port'' ?body" "port_unset ''smtp_port'' ?body" by code_simp+
  from port_defaults [OF ok] lb u n show ?thesis using ok lb by metis
qed

text \<open>
  C5: for a store file that loads and has no \<open>name\<close> key inside a block (the name of an
  account is its section header), saving the loaded mapping and loading the saved text
  gives the same mapping: the same names in the same order, each with the same field
  values and port integers.
\<close>

theorem save_load_round_trip:
  assumes "load_all_accounts (Some content) = Inr accs"
    and "list_all no_name_key (py_lines content)"
  shows "load_all_accounts (Some (save_all_accounts accs)) = Inr accs"
proof -
  from assms(2) have "\<forall>l\<in>set (py_lines content). no_name_key l" by (simp add: list_all_iff)
  with assms(1) have "good_accounts accs" by (rule load_good)
  then show ?thesis by (simp add: good_accounts_def load_save)
qed

theorem save_load_round_trip_witness:
  "load_all_accounts (Some store_two) =
     Inr [(''first'', \<lparr>name = ''first'', email = ''f@x.org'', password = ''pw'',
             imap_server = [], imap_port = 143, smtp_server = [], smtp_port = 587\<rparr>),
          (''second'', \<lparr>name = ''second'', email = [], password = [],
             imap_server = ''imap.y.org'', imap_port = 993, smtp_server = [], smtp_port = - 1\<rparr>)]
   \<and> list_all no_name_key (py_lines store_two)
   \<and> load_all_accounts (Some (save_all_accounts (projr (load_all_accounts (Some store_two)))))
       = load_all_accounts (Some store_two)"
proof -
  let ?accs = "[(''first'', \<lparr>name = ''first'', email = ''f@x.org'', password = ''pw'',
             imap_server = [], imap_port = 143, smtp_server = [], smtp_port = 587\<rparr>),
          (''second'', \<lparr>name = ''second'', email = [], password = [],
             imap_server = ''imap.y.org'', imap_port = 993, smtp_server = [], smtp_port = - 1\<rparr>)]"
  have l: "load_all_accounts (Some store_two) = Inr ?accs" by code_simp
  have n: "list_all no_name_key (py_lines store_two)" by code_simp
  from save_load_round_trip [OF l n] l n show ?thesis by simp
qed

text \<open>
  C10, as the claim states it, fails: every block is parsed when the next header is
  read, the shadowed ones too. Here the first block named \<open>a\<close> has a malformed port and
  the last block named \<open>a\<close> loads on its own, yet the load of the file raises
  \<open>ValueError\<close>.
\<close>

theorem shadowed_block_fails_load:
  "last_block (py_lines store_shadowed) (''[account a]'' @ [newline]) [''email=new@x.org'' @ [newline]]
   \<and> load_all_accounts (Some (''[account a]'' @ [newline] @ ''email=new@x.org'' @ [newline])) =
       Inr [(''a'', \<lparr>name = ''a'', email = ''new@x.org'', password = [], imap_server = [],
                     imap_port = 993, smtp_server = [], smtp_port = 587\<rparr>)]
   \<and> load_all_accounts (Some store_shadowed) = Inl ValueError"
proof -
  have lines: "py_lines store_shadowed =
      [''[account a]'' @ [newline], ''imap_port=abc'' @ [newline], [newline]]
      @ (''[account a]'' @ [newline]) # [''email=new@x.org'' @ [newline]] @ []"
    by code_simp
  have lb: "last_block (py_lines store_shadowed) (''[account a]'' @ [newline])
      [''email=new@x.org'' @ [newline]]"
    by (rule last_blockI [OF lines]) (code_simp+)
  have b: "load_all_accounts (Some (''[account a]'' @ [newline] @ ''email=new@x.org'' @ [newline])) =
       Inr [(''a'', \<lparr>name = ''a'', email = ''new@x.org'', password = [], imap_server = [],
                     imap_port = 993, smtp_server = [], smtp_port = 587\<rparr>)]"
    by code_simp
  have f: "load_all_accounts (Some store_shadowed) = Inl ValueError" by code_simp
  from lb b f show ?thesis by simp
qed

text \<open>
  C10, amended: when every \<open>imap_port\<close> and \<open>smtp_port\<close> value of the store file is
  empty or an integer literal, \<open>load_all_accounts\<close> returns a mapping with one entry per
  name, in which the name of a section header is bound to the configuration of the last
  block with that name, that is, to what loading this block alone gives; blocks of the
  same name before it raise no error.
\<close>

theorem last_block_wins:
  assumes "list_all port_line_ok (py_lines content)"
    and "last_block (py_lines content) h body"
  shows "\<exists>accs cfg. load_all_accounts (Some content) = Inr accs
     \<and> distinct (map fst accs)
     \<and> load_all_accounts (Some (concat (h # body))) = Inr [(header_name (strip h), cfg)]
     \<and> map_of accs (header_name (strip h)) = Some cfg"
proof -
  from assms(1) have "\<forall>l\<in>set (py_lines content). port_line_ok l" by (simp add: list_all_iff)
  then obtain accs where l: "load_all_accounts (Some content) = Inr accs"
    using load_ok by blast
  from assms(2) obtain pre rest where
    "py_lines content = pre @ h # body @ rest" "is_header (strip h)"
    "header_name (strip h) \<noteq> []"
    "\<forall>l\<in>set body. \<not> is_header (strip l)" "rest \<noteq> [] \<longrightarrow> is_header (strip (hd rest))"
    "\<forall>l\<in>set rest. is_header (strip l) \<longrightarrow> header_name (strip l) \<noteq> header_name (strip h)"
    unfolding last_block_def by blast
  from last_block_lookup [OF this(1,2) refl this(3,4,5,6) l] obtain cfg where
    "load_all_accounts (Some (concat (h # body))) = Inr [(header_name (strip h), cfg)]"
    "map_of accs (header_name (strip h)) = Some cfg" by blast
  moreover have "distinct (map fst accs)" using l by (rule load_distinct)
  ultimately show ?thesis using l by blast
qed

theorem last_block_wins_witness:
  "list_all port_line_ok (py_lines store_duplicate)
   \<and> last_block (py_lines store_duplicate) (''[account a]'' @ [newline]) [''email=new@x.org'' @ [newline]]
   \<and> (\<exists>accs cfg. load_all_accounts (Some store_duplicate) = Inr accs
        \<and> map_of accs ''a'' = Some cfg
        \<and> load_all_accounts (Some (''[account a]'' @ [newline] @ ''email=new@x.org'' @ [newline]))
            = Inr [(''a'', cfg)]
        \<and> email cfg = ''new@x.org'' \<and> smtp_port cfg = 587)"
proof -
  let ?h = "''[account a]'' @ [newline]"
  let ?body = "[''email=new@x.org'' @ [newline]]"
  let ?pre = "[''[account a]'' @ [newline], ''email=old@x.org'' @ [newline],
     ''smtp_port=25'' @ [newline], [newline], ''[account b]'' @ [newline],
     ''email=b@x.org'' @ [newline], [newline]]"
  let ?cfg = "\<lparr>name = ''a'', email = ''new@x.org'', password = [], imap_server = [],
     imap_port = 993, smtp_server = [], smtp_port = 587\<rparr>"
  have ok: "list_all port_line_ok (py_lines store_duplicate)" by code_simp
  have lines: "py_lines store_duplicate = ?pre @ ?h # ?body @ []" by code_simp
  have lb: "last_block (py_lines store_duplicate) ?h ?body"
    by (rule last_blockI [OF lines]) (code_simp+)
  have n: "header_name (strip ?h) = ''a''" by code_simp
  have b: "load_all_accounts (Some (concat (?h # ?body))) = Inr [(''a'', ?cfg)]" by code_simp
  from last_block_wins [OF ok lb] obtain accs cfg where
    r: "load_all_accounts (Some store_duplicate) = Inr accs"
      "load_all_accounts (Some (concat (?h # ?body))) = Inr [(header_name (strip ?h), cfg)]"
      "map_of accs (header_name (strip ?h)) = Some cfg"
    by blast
  from r(2) b have "cfg = ?cfg" by simp
  with r(1,3) n b ok lb show ?thesis
    by (intro conjI exI [of _ accs] exI [of _ ?cfg]) simp_all
qed

section \<open>The claims about fetching and decoding\<close>

text \<open>
  C2 fails on the error paths: \<open>imap.close()\<close> and \<open>imap.logout()\<close> stand only before
  the two normal returns of \<open>on_refresh\<close>, and neither handler releases the session.
  Here \<open>SELECT\<close> answers \<open>NO\<close> after a successful login: the commands sent end with
  \<open>SELECT\<close>, and the error is reported with the session still open.
\<close>

theorem select_failure_skips_logout:
  "snd (on_refresh ascii_lib select_refused example_frame) =
     ([IMAP4_SSL ''imap.example.org'' 993, Imap_login ''me@example.org'' ''pw'', Imap_select ''INBOX''],
      Error_box (RuntimeError ''Could not open INBOX''))"
  by code_simp

text \<open>
  C3 fails in its fallback: for a multipart message without a \<open>text/plain\<close> part the
  function returns the decoded payload of the first element of \<open>walk()\<close>, which is the
  multipart container itself and has no payload, so the result is the empty text even
  though the only part decodes to its content.
\<close>

theorem fallback_ignores_the_parts:
  "extract_plain_text_body ascii_lib html_only = Some []
   \<and> extract_plain_text_body ascii_lib html_part = Some ''<p>hi</p>''"
  by code_simp

text \<open>
  C4, as the claim states it, fails: a \<open>FETCH\<close> whose data starts with an item that is
  neither \<open>None\<close> nor a pair passes the guard and raises, which ends the whole batch;
  the identifiers after it are never fetched.
\<close>

theorem unexpected_item_aborts_batch:
  "snd (snd (on_refresh ascii_lib flags_first example_frame)) = Error_box AttributeError
   \<and> map msg_id (messages (fst (on_refresh ascii_lib flags_first example_frame))) = [''3'']
   \<and> fst (snd (on_refresh ascii_lib flags_first example_frame)) =
       [IMAP4_SSL ''imap.example.org'' 993, Imap_login ''me@example.org'' ''pw'',
        Imap_select ''INBOX'', Imap_search, Imap_fetch ''3'', Imap_fetch ''2'']"
  by code_simp

text \<open>
  C4, amended: when \<open>SEARCH\<close> gives identifiers and every \<open>FETCH\<close> of the slice either
  carries a message or is one the guard recognises (a status other than \<open>OK\<close>, empty
  data, or \<open>None\<close> as the first item), \<open>on_refresh\<close> fetches every identifier of the
  slice, ends with \<open>Emails loaded\<close>, and its messages are those of the identifiers that
  were not skipped, in the order of the slice reversed.
\<close>

theorem refresh_skips_bad_fetch:
  assumes "active_account st = Some a" "search_gives srv ids" "ids \<noteq> []"
    and "list_all (\<lambda>i. skipped (imap_fetch srv i) \<or> has_message (imap_fetch srv i)) (last_20 ids)"
  shows "on_refresh lib srv st =
     (st\<lparr>messages := List.map_filter (fetched_message lib srv) (rev (last_20 ids))\<rparr>,
      session_start (objects st a) @ map Imap_fetch (rev (last_20 ids)) @ [Imap_close, Imap_logout],
      Emails_loaded)
   \<and> map msg_id (List.map_filter (fetched_message lib srv) (rev (last_20 ids))) =
       filter (\<lambda>i. \<not> skipped (imap_fetch srv i)) (rev (last_20 ids))"
proof -
  from assms(4) have all: "\<forall>i\<in>set (rev (last_20 ids)). skipped (imap_fetch srv i) \<or> has_message (imap_fetch srv i)"
    by (simp add: list_all_iff)
  have 1: "on_refresh lib srv st =
     (st\<lparr>messages := List.map_filter (fetched_message lib srv) (rev (last_20 ids))\<rparr>,
      session_start (objects st a) @ map Imap_fetch (rev (last_20 ids)) @ [Imap_close, Imap_logout],
      Emails_loaded)"
    unfolding on_refresh_session [OF assms(1,2)] fetch_loop_all [OF all] using assms(3) by simp
  have "filter (\<lambda>i. has_message (imap_fetch srv i)) (rev (last_20 ids)) =
      filter (\<lambda>i. \<not> skipped (imap_fetch srv i)) (rev (last_20 ids))"
    using all skipped_no_message by (intro filter_cong) auto
  with 1 show ?thesis by (simp add: map_filter_ids)
qed

theorem refresh_skips_bad_fetch_witness:
  "active_account example_frame = Some 0
   \<and> search_gives one_missing [''1'', ''2'', ''3'']
   \<and> skipped (imap_fetch one_missing ''2'')
   \<and> snd (snd (on_refresh ascii_lib one_missing example_frame)) = Emails_loaded
   \<and> map msg_id (messages (fst (on_refresh ascii_lib one_missing example_frame))) = [''3'', ''1'']
   \<and> fetched_ids (fst (snd (on_refresh ascii_lib one_missing example_frame))) = [''3'', ''2'', ''1'']"
proof -
  let ?ids = "[''1'', ''2'', ''3'']"
  have a: "active_account example_frame = Some 0" by code_simp
  have s: "search_gives one_missing ?ids" by code_simp
  have n: "?ids \<noteq> []" by simp
  have g: "list_all (\<lambda>i. skipped (imap_fetch one_missing i) \<or> has_message (imap_fetch one_missing i))
      (last_20 ?ids)" by code_simp
  have sk: "skipped (imap_fetch one_missing ''2'')" by code_simp
  have l: "rev (last_20 ?ids) = [''3'', ''2'', ''1'']" by code_simp
  have f: "filter (\<lambda>i. \<not> skipped (imap_fetch one_missing i)) [''3'', ''2'', ''1''] = [''3'', ''1'']"
    by code_simp
  define ms where "ms = List.map_filter (fetched_message ascii_lib one_missing) [''3'', ''2'', ''1'']"
  note t = refresh_skips_bad_fetch [OF a s n g, of ascii_lib, unfolded l f, folded ms_def]
  from t have r: "on_refresh ascii_lib one_missing example_frame =
     (example_frame\<lparr>messages := ms\<rparr>,
      session_start (objects example_frame 0) @ map Imap_fetch [''3'', ''2'', ''1''] @ [Imap_close, Imap_logout],
      Emails_loaded)" and m: "map msg_id ms = [''3'', ''1'']"
    by blast+
  have e: "fetched_ids (session_start (objects example_frame 0) @ map Imap_fetch [''3'', ''2'', ''1'']
      @ [Imap_close, Imap_logout]) = [''3'', ''2'', ''1'']"
    by (simp only: fetched_ids_append fetched_ids_start fetched_ids_end fetched_ids_fetches
        append_Nil append_Nil2)
  show ?thesis unfolding r using a s sk m e by simp
qed

text \<open>
  C6: when \<open>SEARCH\<close> gives the identifiers \<open>ids\<close>, \<open>on_refresh\<close> fetches a prefix of the
  last 20 of them in reverse order and its messages are those identifiers of the prefix
  that carry a message, so there are at most 20; when every \<open>FETCH\<close> carries a message
  the messages are exactly the last 20 identifiers reversed, and 25 identifiers give 20
  messages.
\<close>

theorem refresh_newest_first:
  assumes "active_account st = Some a" "search_gives srv ids"
    and "on_refresh lib srv st = (st', evs, outcome)"
  shows "(\<exists>k. fetched_ids evs = take k (rev (last_20 ids))
            \<and> map msg_id (messages st') =
                filter (\<lambda>i. has_message (imap_fetch srv i)) (take k (rev (last_20 ids))))
     \<and> length (messages st') \<le> 20
     \<and> (list_all (\<lambda>i. has_message (imap_fetch srv i)) ids \<longrightarrow>
          fetched_ids evs = rev (last_20 ids)
          \<and> map msg_id (messages st') = rev (last_20 ids)
          \<and> (length ids = 25 \<longrightarrow> length (messages st') = 20 \<and> outcome = Emails_loaded))"
proof (cases "ids = []")
  case True
  then have "st' = st\<lparr>messages := []\<rparr>" "evs = session_start (objects st a) @ [Imap_close, Imap_logout]"
    using assms(3) unfolding on_refresh_session [OF assms(1,2)] by simp_all
  then show ?thesis using True
    by (simp add: fetched_ids_append fetched_ids_start fetched_ids_end last_20_def)
next
  case False
  let ?xs = "rev (last_20 ids)"
  let ?start = "session_start (objects st a)"
  obtain k r where k: "k \<le> length ?xs"
    "fetch_loop lib srv ?xs [] ?start =
      (r, [] @ List.map_filter (fetched_message lib srv) (take k ?xs), ?start @ map Imap_fetch (take k ?xs))"
    "r = None \<longrightarrow> k = length ?xs"
    using fetch_loop_char [of ?xs lib srv "[]" ?start] by blast
  have res: "messages st' = List.map_filter (fetched_message lib srv) (take k ?xs)
      \<and> fetched_ids evs = take k ?xs"
    using assms(3) False unfolding on_refresh_session [OF assms(1,2)] k(2)
    by (cases r)
      (auto simp: fetched_ids_append fetched_ids_start fetched_ids_end fetched_ids_fetches)
  then have ids: "map msg_id (messages st') = filter (\<lambda>i. has_message (imap_fetch srv i)) (take k ?xs)"
    by (simp add: map_filter_ids)
  have "length (map msg_id (messages st')) \<le> length (take k ?xs)"
    unfolding ids by (rule length_filter_le)
  then have len: "length (messages st') \<le> 20" by (simp add: length_last_20)
  have good: "fetched_ids evs = ?xs \<and> map msg_id (messages st') = ?xs
      \<and> (length ids = 25 \<longrightarrow> length (messages st') = 20 \<and> outcome = Emails_loaded)"
    if g: "list_all (\<lambda>i. has_message (imap_fetch srv i)) ids"
  proof -
    have "set (last_20 ids) \<subseteq> set ids" unfolding last_20_def by (rule set_drop_subset)
    then have all: "\<forall>i\<in>set ?xs. has_message (imap_fetch srv i)"
      using g by (auto simp: list_all_iff)
    then have a2: "\<forall>i\<in>set ?xs. skipped (imap_fetch srv i) \<or> has_message (imap_fetch srv i)" by simp
    have r: "on_refresh lib srv st =
       (st\<lparr>messages := List.map_filter (fetched_message lib srv) ?xs\<rparr>,
        ?start @ map Imap_fetch ?xs @ [Imap_close, Imap_logout], Emails_loaded)"
      unfolding on_refresh_session [OF assms(1,2)] fetch_loop_all [OF a2] using False by simp
    have m: "map msg_id (messages st') = ?xs" and e: "fetched_ids evs = ?xs"
      and o: "outcome = Emails_loaded"
      using assms(3) all unfolding r
      by (auto simp: map_filter_ids fetched_ids_append fetched_ids_start fetched_ids_end
          fetched_ids_fetches)
    have "length (messages st') = length (map msg_id (messages st'))" by simp
    also have "\<dots> = min 20 (length ids)"
      unfolding m by (simp add: length_last_20)
    finally have "length ids = 25 \<longrightarrow> length (messages st') = 20" by simp
    then show ?thesis using m e o by blast
  qed
  from res ids len good show ?thesis by blast
qed

theorem refresh_newest_first_witness:
  "active_account example_frame = Some 0
   \<and> search_gives inbox_25 ids_25
   \<and> length ids_25 = 25
   \<and> length (messages (fst (on_refresh ascii_lib inbox_25 example_frame))) = 20
   \<and> map msg_id (messages (fst (on_refresh ascii_lib inbox_25 example_frame))) =
       [''125'', ''124'', ''123'', ''122'', ''121'', ''120'', ''119'', ''118'', ''117'', ''116'',
        ''115'', ''114'', ''113'', ''112'', ''111'', ''110'', ''109'', ''108'', ''107'', ''106'']"
proof -
  have a: "active_account example_frame = Some 0" by code_simp
  have s: "search_gives inbox_25 ids_25" by code_simp
  have g: "list_all (\<lambda>i. has_message (imap_fetch inbox_25 i)) ids_25" by code_simp
  have l: "rev (last_20 ids_25) =
       [''125'', ''124'', ''123'', ''122'', ''121'', ''120'', ''119'', ''118'', ''117'', ''116'',
        ''115'', ''114'', ''113'', ''112'', ''111'', ''110'', ''109'', ''108'', ''107'', ''106'']"
    by code_simp
  have n: "length ids_25 = 25" by code_simp
  obtain st' evs outcome where
    r: "on_refresh ascii_lib inbox_25 example_frame = (st', evs, outcome)"
    by (cases "on_refresh ascii_lib inbox_25 example_frame") auto
  from refresh_newest_first [OF a s r] g n
  have "length (messages st') = 20 \<and> map msg_id (messages st') = rev (last_20 ids_25)"
    by simp
  then show ?thesis using a s n r unfolding l by simp
qed

section \<open>The claim about sending\<close>

text \<open>
  C7: the recipients are the pieces of the stripped To text between commas, each
  stripped, without the empty ones; every \<open>sendmail\<close> goes to exactly this list; when
  the list is empty nothing is sent to the SMTP server and the outcome is one of the
  two validation messages.
\<close>

theorem compose_recipients:
  assumes "active_account st = Some a"
    and "on_compose srv st (Compose_send to_text subject body) = (evs, outcome)"
  shows "recipients_of (strip to_text) = filter (\<lambda>r. r \<noteq> []) (map strip (py_split CHR '','' (strip to_text)))
     \<and> (\<forall>r\<in>set (recipients_of (strip to_text)). r \<noteq> [] \<and> strip r = r \<and> CHR '','' \<notin> set r)
     \<and> (\<forall>sender rc text. Smtp_sendmail sender rc text \<in> set evs \<longrightarrow> rc = recipients_of (strip to_text))
     \<and> (recipients_of (strip to_text) = [] \<longrightarrow>
          evs = [] \<and> (outcome = Enter_at_least_one_recipient \<or> outcome = No_valid_recipients))
     \<and> (recipients_of (strip to_text) \<noteq> [] \<and> smtp_connect srv = None \<and> smtp_login srv = None
          \<and> smtp_sendmail srv = None \<longrightarrow>
          outcome = Email_sent
          \<and> (\<exists>pre text. evs = pre @ [Smtp_sendmail (email (objects st a)) (recipients_of (strip to_text)) text, Smtp_quit]))"
proof -
  let ?rc = "recipients_of (strip to_text)"
  have 1: "\<forall>r\<in>set ?rc. r \<noteq> [] \<and> strip r = r \<and> CHR '','' \<notin> set r"
    using recipients_clean by blast
  have e: "strip to_text = [] \<Longrightarrow> ?rc = []"
    by (simp add: recipients_of_def py_split_def strip_Nil)
  have 2: "rc = ?rc" if m: "Smtp_sendmail sender rc m \<in> set evs" for sender rc m
  proof (cases "strip to_text = [] \<or> ?rc = []")
    case True
    then have "evs = []" using assms by (auto simp: on_compose_def Let_def split: if_splits)
    then show ?thesis using m by simp
  next
    case False
    then have "send_session srv (objects st a) ?rc (msg_str (objects st a) ?rc subject body) = (evs, outcome)"
      using assms by (simp add: on_compose_def Let_def)
    then have "evs = fst (send_session srv (objects st a) ?rc (msg_str (objects st a) ?rc subject body))"
      by simp
    then show ?thesis using m send_session_recipients by blast
  qed
  have 3: "evs = [] \<and> (outcome = Enter_at_least_one_recipient \<or> outcome = No_valid_recipients)"
    if "?rc = []"
    using that assms by (auto simp: on_compose_def Let_def split: if_splits)
  have 4: "outcome = Email_sent
          \<and> (\<exists>pre text. evs = pre @ [Smtp_sendmail (email (objects st a)) ?rc text, Smtp_quit])"
    if "?rc \<noteq> []" "smtp_connect srv = None" "smtp_login srv = None" "smtp_sendmail srv = None"
  proof -
    have "strip to_text \<noteq> []" using that(1) e by blast
    then have "(evs, outcome) = send_session srv (objects st a) ?rc (msg_str (objects st a) ?rc subject body)"
      using assms that(1) by (simp add: on_compose_def Let_def)
    then show ?thesis unfolding send_session_ok [OF that(2,3,4)] by auto
  qed
  from 1 2 3 4 recipients_filter_map show ?thesis by blast
qed

theorem compose_recipients_witness:
  "active_account example_frame = Some 0
   \<and> recipients_of (strip ''a@x.com, ,b@x.com'') = [''a@x.com'', ''b@x.com'']
   \<and> (\<exists>text. on_compose smtp_up example_frame (Compose_send ''a@x.com, ,b@x.com'' ''Hi'' ''Hello'') =
        ([SMTP ''smtp.example.org'' 587, Smtp_starttls, Smtp_login ''me@example.org'' ''pw'',
          Smtp_sendmail ''me@example.org'' [''a@x.com'', ''b@x.com''] text, Smtp_quit], Email_sent))
   \<and> on_compose smtp_up example_frame (Compose_send '' , '' ''Hi'' ''Hello'') = ([], No_valid_recipients)"
proof -
  have a: "active_account example_frame = Some 0" by code_simp
  have r1: "recipients_of (strip ''a@x.com, ,b@x.com'') = [''a@x.com'', ''b@x.com'']" by code_simp
  have r2: "recipients_of (strip '' , '') = []" by code_simp
  have c1: "fst (on_compose smtp_up example_frame (Compose_send ''a@x.com, ,b@x.com'' ''Hi'' ''Hello'')) =
        [SMTP ''smtp.example.org'' 587, Smtp_starttls, Smtp_login ''me@example.org'' ''pw'',
          Smtp_sendmail ''me@example.org'' [''a@x.com'', ''b@x.com'']
            (msg_str work_account [''a@x.com'', ''b@x.com''] ''Hi'' ''Hello''), Smtp_quit]"
    by code_simp
  have s: "smtp_connect smtp_up = None" "smtp_login smtp_up = None" "smtp_sendmail smtp_up = None"
    by code_simp+
  obtain evs1 o1 where
    e1: "on_compose smtp_up example_frame (Compose_send ''a@x.com, ,b@x.com'' ''Hi'' ''Hello'') = (evs1, o1)"
    by (cases "on_compose smtp_up example_frame (Compose_send ''a@x.com, ,b@x.com'' ''Hi'' ''Hello'')")
  obtain evs2 o2 where
    e2: "on_compose smtp_up example_frame (Compose_send '' , '' ''Hi'' ''Hello'') = (evs2, o2)"
    by (cases "on_compose smtp_up example_frame (Compose_send '' , '' ''Hi'' ''Hello'')")
  have c2: "snd (on_compose smtp_up example_frame (Compose_send '' , '' ''Hi'' ''Hello'')) = No_valid_recipients"
    by code_simp
  have o2: "o2 = No_valid_recipients" using c2 unfolding e2 by simp
  from compose_recipients [OF a e1] r1 s have "o1 = Email_sent" by simp
  moreover from compose_recipients [OF a e2] r2 have "evs2 = []" by simp
  ultimately show ?thesis using a r1 e1 e2 o2 c1 by auto
qed

section \<open>The claims about the account manager\<close>






end
